theory Spec2Isabelle
  imports
    Main
    "HOL-Library.Word"
    "HOL-Library.Sublist"
    "HOL-Library.AList"
    "HOL-Library.Signed_Division"
begin

unbundle bit_operations_syntax

section \<open>The storage packer, version 2 (helper/storagepacker/storagepacker_v2.go)\<close>

text \<open>
  The packer is modelled sequentially: one operation runs at a time, so the lock pool,
  the per-bucket locks and the lock of the radix tree have no effect and are left out.
  Every other statement of the functions modelled is a step of the model, in the source's
  order. \<^verbatim>\<open>GetBucket\<close>, \<^verbatim>\<open>DeleteBucket\<close> and \<^verbatim>\<open>BucketKeys\<close>, about which nothing is
  proved here, are not modelled.
\<close>

subsection \<open>Values of the Go program\<close>

type_synonym bytes = "8 word list"

text \<open>
  A Go \<^verbatim>\<open>error\<close> value. \<^verbatim>\<open>fmt.Errorf\<close> and \<^verbatim>\<open>errors.New\<close> build one from a message;
  \<^verbatim>\<open>errwrap.Wrapf\<close> wraps an inner error, every format string of this file being a text
  followed by \<^verbatim>\<open>{{err}}\<close>; a run-time panic unwinds through every caller, as a returned
  error does in the model.
\<close>

datatype error = Errorf string | Wrapf string error | Panic string

fun Error :: "error \<Rightarrow> string" where
  "Error (Errorf m) = m"
| "Error (Wrapf p e) = p @ Error e"
| "Error (Panic m) = m"

text \<open>\<^verbatim>\<open>strings.Contains(s, substr)\<close>.\<close>

fun Contains :: "string \<Rightarrow> string \<Rightarrow> bool" where
  "Contains [] substr = (substr = [])"
| "Contains (c # cs) substr = (prefix substr (c # cs) \<or> Contains cs substr)"

text \<open>
  Modelled from the spec: the constant \<^verbatim>\<open>physical.ErrValueTooLarge\<close> is not among the
  sources. Section 6 of the specification says that the backend's error for a value that
  is too large is recognised by a part of its text; this is the text. Nothing that is
  proved depends on which text it is.
\<close>

definition ErrValueTooLarge :: string where
  "ErrValueTooLarge = ''put failed due to value being too large''"

text \<open>
  Modelled from the spec: the types \<^verbatim>\<open>Item\<close> and \<^verbatim>\<open>Bucket\<close> are declared in a generated
  file that is not among the sources. Section 3 of the specification gives an item an
  identifier and an opaque payload, and a bucket a key, a map of items and a map of child
  buckets; the names of the fields are those the source uses. The payload is a
  \<^verbatim>\<open>*any.Any\<close>: a type URL and a value, or nil.
\<close>

type_synonym Any = "string \<times> bytes"

record Item =
  ID :: string
  Message :: "Any option"

text \<open>
  A Go map may be nil (\<open>None\<close>): reading a nil map finds nothing, assigning to it panics.
  The child buckets are held by value: the source reaches a child only through the map of
  its parent.
\<close>

datatype Bucket =
  Bucket (Key: string) (ItemMap: "(string \<rightharpoonup> Any option) option")
    (Buckets: "(string \<rightharpoonup> Bucket) option")

text \<open>\<^verbatim>\<open>len(m)\<close> of a map that may be nil is zero exactly when it holds no key.\<close>

definition len_is_0 :: "('k \<rightharpoonup> 'v) option \<Rightarrow> bool" where
  "len_is_0 m = (case m of None \<Rightarrow> True | Some f \<Rightarrow> dom f = {})"

text \<open>\<^verbatim>\<open>v, ok := m[k]\<close> on a map that may be nil.\<close>

definition index_map :: "('k \<rightharpoonup> 'v) option \<Rightarrow> 'k \<Rightarrow> 'v option" where
  "index_map m k = (case m of None \<Rightarrow> None | Some f \<Rightarrow> f k)"

text \<open>\<^verbatim>\<open>delete(m, k)\<close>: no operation on a nil map.\<close>

definition delete_map :: "('k \<rightharpoonup> 'v) option \<Rightarrow> 'k \<Rightarrow> ('k \<rightharpoonup> 'v) option" where
  "delete_map m k = (case m of None \<Rightarrow> None | Some f \<Rightarrow> Some (f(k := None)))"

text \<open>
  Modelled from the spec: \<^verbatim>\<open>logical.StorageEntry\<close> is not among the sources; the source
  uses its fields \<^verbatim>\<open>Key\<close> and \<^verbatim>\<open>Value\<close>, the key and the bytes of section 6.
\<close>

datatype StorageEntry = StorageEntry (EntryKey: string) (Value: bytes)

subsection \<open>The storage view\<close>

text \<open>
  Modelled from the spec: \<^verbatim>\<open>logical.StorageView\<close> is not among the sources. Section 6 of
  the specification gives the backend contract: \<^verbatim>\<open>get\<close> returns the stored bytes or
  nothing, \<^verbatim>\<open>put\<close> stores them or fails, with the too-large error when the value exceeds
  the advertised maximum, or with an I/O error. A view has a prefix that it puts in front
  of every key. The I/O errors are given per key by \<open>getFault\<close> and \<open>putFault\<close>.
\<close>

record StorageView =
  entries :: "string \<rightharpoonup> bytes"
  viewPrefix :: string
  maxEntrySize :: nat
  getFault :: "string \<Rightarrow> error option"
  putFault :: "string \<Rightarrow> error option"

definition SubView :: "StorageView \<Rightarrow> string \<Rightarrow> StorageView" where
  "SubView v p = v\<lparr>viewPrefix := viewPrefix v @ p\<rparr>"

text \<open>A view is held through a pointer; calling a method of a nil view panics.\<close>

definition View_Get :: "StorageView option \<Rightarrow> string \<Rightarrow> error + StorageEntry option" where
  "View_Get view k =
     (case view of
        None \<Rightarrow> Inl (Panic ''nil pointer dereference'')
      | Some v \<Rightarrow>
          (case getFault v k of
             Some e \<Rightarrow> Inl e
           | None \<Rightarrow>
               (case entries v (viewPrefix v @ k) of
                  None \<Rightarrow> Inr None
                | Some val \<Rightarrow> Inr (Some (StorageEntry k val)))))"

definition View_Put ::
  "StorageView option \<Rightarrow> StorageEntry \<Rightarrow> error option \<times> StorageView option" where
  "View_Put view e =
     (case view of
        None \<Rightarrow> (Some (Panic ''nil pointer dereference''), None)
      | Some v \<Rightarrow>
          (case putFault v (EntryKey e) of
             Some err \<Rightarrow> (Some err, Some v)
           | None \<Rightarrow>
               if maxEntrySize v < length (Value e) then (Some (Errorf ErrValueTooLarge), Some v)
               else (None, Some (v\<lparr>entries := (entries v)(viewPrefix v @ EntryKey e \<mapsto> Value e)\<rparr>))))"

subsection \<open>What the packer calls in other packages\<close>

text \<open>
  The hash, the protobuf codec, the compression and the JSON codec of the configuration
  are parameters of the model: \<^verbatim>\<open>cryptoutil.Blake2b256Hash\<close>, \<^verbatim>\<open>proto.Marshal\<close>,
  \<^verbatim>\<open>proto.Unmarshal\<close>, \<^verbatim>\<open>compressutil.Compress\<close> (with the Snappy configuration),
  \<^verbatim>\<open>compressutil.Decompress\<close> (the bytes and the flag \<^verbatim>\<open>notCompressed\<close>),
  \<^verbatim>\<open>logical.StorageEntryJSON\<close> of a configuration, of which only \<^verbatim>\<open>base_bucket_bits\<close>
  has a JSON name, and \<^verbatim>\<open>DecodeJSON\<close> into a configuration.
\<close>

record Deps =
  Blake2b256Hash :: "string \<Rightarrow> bytes"
  Marshal :: "Bucket \<Rightarrow> error + bytes"
  Unmarshal :: "bytes \<Rightarrow> error + Bucket"
  Compress :: "bytes \<Rightarrow> error + bytes"
  Decompress :: "bytes \<Rightarrow> error + bytes \<times> bool"
  StorageEntryJSON :: "int \<Rightarrow> error + bytes"
  DecodeJSON :: "bytes \<Rightarrow> error + int"

text \<open>\<^verbatim>\<open>hex.EncodeToString\<close>: two characters of \<^verbatim>\<open>0123456789abcdef\<close> for every byte.\<close>

definition hextable :: string where
  "hextable = ''0123456789abcdef''"

definition EncodeToString :: "bytes \<Rightarrow> string" where
  "EncodeToString src =
     concat (map (\<lambda>v. [hextable ! unat (drop_bit 4 v), hextable ! unat (v AND 0x0f)]) src)"

text \<open>\<^verbatim>\<open>fmt.Sprintf("%x", i)\<close> for an \<open>i\<close> that is not negative.\<close>

function Sprintf_x :: "nat \<Rightarrow> string" where
  "Sprintf_x i = (if i < 16 then [hextable ! i] else Sprintf_x (i div 16) @ [hextable ! (i mod 16)])"
  by pat_completeness auto
termination
  by (relation "measure id") auto

text \<open>
  The slice expression \<^verbatim>\<open>s[lo:hi]\<close> of a string, which panics unless
  \<^verbatim>\<open>0 <= lo <= hi <= len(s)\<close>.
\<close>

definition slice :: "string \<Rightarrow> int \<Rightarrow> int \<Rightarrow> error + string" where
  "slice s lo hi =
     (if 0 \<le> lo \<and> lo \<le> hi \<and> hi \<le> int (length s)
      then Inr (take (nat (hi - lo)) (drop (nat lo) s))
      else Inl (Panic ''slice bounds out of range''))"

subsection \<open>The radix tree of the bucket cache (armon/go-radix)\<close>

text \<open>
  The tree is a finite map from keys to values. \<^verbatim>\<open>LongestPrefix(s)\<close> returns the entry
  whose key is the longest prefix of \<open>s\<close> among the keys of the tree, the empty key
  included.
\<close>

fun firstHit :: "(string \<rightharpoonup> 'v) \<Rightarrow> string list \<Rightarrow> (string \<times> 'v) option" where
  "firstHit t [] = None"
| "firstHit t (p # ps) = (case t p of Some v \<Rightarrow> Some (p, v) | None \<Rightarrow> firstHit t ps)"

definition LongestPrefix :: "(string \<rightharpoonup> 'v) \<Rightarrow> string \<Rightarrow> (string \<times> 'v) option" where
  "LongestPrefix t s = firstHit t (rev (prefixes s))"

subsection \<open>The packer\<close>

definition defaultBaseBucketBits :: int where
  "defaultBaseBucketBits = 8"

definition defaultBucketShardBits :: int where
  "defaultBucketShardBits = 4"

text \<open>
  \<^verbatim>\<open>Config\<close>. The two views are pointers, nil being \<open>None\<close>. Go's \<^verbatim>\<open>int\<close> is \<open>int\<close>:
  the source only divides it by four, takes its remainder and its exclusive or, none of
  which overflows.
\<close>

record Config =
  BucketStorageView :: "StorageView option"
  ConfigStorageView :: "StorageView option"
  BaseBucketBits :: int
  BucketShardBits :: int

text \<open>
  \<^verbatim>\<open>StoragePackerV2\<close> embeds its \<^verbatim>\<open>Config\<close>. The cache and the queue hold pointers to
  \<^verbatim>\<open>LockedBucket\<close> objects: \<open>objects\<close> is the store of these objects, a pointer is an
  address in it, and \<open>nextObject\<close> is the address the next allocation returns. The
  \<^verbatim>\<open>sync.Map\<close> of queued buckets is an association list, whose order is the order
  \<^verbatim>\<open>Range\<close> visits it in.
\<close>

record StoragePackerV2 = Config +
  bucketsCache :: "string \<rightharpoonup> nat"
  queueMode :: "32 word"
  queuedBuckets :: "(string \<times> nat) list"
  objects :: "nat \<Rightarrow> Bucket"
  nextObject :: nat

definition new_object :: "StoragePackerV2 \<Rightarrow> Bucket \<Rightarrow> nat \<times> StoragePackerV2" where
  "new_object s b =
     (nextObject s, s\<lparr>objects := (objects s)(nextObject s := b), nextObject := Suc (nextObject s)\<rparr>)"

definition GetCacheKey :: "string \<Rightarrow> string" where
  "GetCacheKey key = filter (\<lambda>c. c \<noteq> CHR ''/'') key"

definition BucketStorageKeyForItemID :: "Deps \<Rightarrow> StoragePackerV2 \<Rightarrow> string \<Rightarrow> error + string" where
  "BucketStorageKeyForItemID d s itemID =
     (let hexVal = EncodeToString (Blake2b256Hash d itemID) in
      case LongestPrefix (bucketsCache s) hexVal of
        Some (_, bucketRaw) \<Rightarrow> Inr (Key (objects s bucketRaw))
      | None \<Rightarrow>
          (case slice hexVal 0 (BaseBucketBits s sdiv 4) of
             Inl e \<Rightarrow> Inl e
           | Inr cacheKey \<Rightarrow>
               (case LongestPrefix (bucketsCache s) hexVal of
                  Some (_, bucketRaw) \<Rightarrow> Inr (Key (objects s bucketRaw))
                | None \<Rightarrow> Inr cacheKey)))"

text \<open>
  \<^verbatim>\<open>DecodeBucket\<close> allocates the \<^verbatim>\<open>LockedBucket\<close> it returns; the result is its address
  and the packer with the new object.
\<close>

definition DecodeBucket ::
  "Deps \<Rightarrow> StoragePackerV2 \<Rightarrow> StorageEntry \<Rightarrow> error + nat \<times> StoragePackerV2" where
  "DecodeBucket d s storageEntry =
     (case Decompress d (Value storageEntry) of
        Inl err \<Rightarrow> Inl (Wrapf ''failed to decompress packed storage entry: '' err)
      | Inr (uncompressedData0, notCompressed) \<Rightarrow>
          (let uncompressedData = (if notCompressed then Value storageEntry else uncompressedData0) in
           case Unmarshal d uncompressedData of
             Inl err \<Rightarrow> Inl (Wrapf ''failed to decode packed storage entry: '' err)
           | Inr bucket \<Rightarrow>
               Inr (new_object s (Bucket (EntryKey storageEntry) (ItemMap bucket) (Buckets bucket)))))"

text \<open>\<^verbatim>\<open>storeBucket\<close>: the bucket is queued under its key when the queue mode is 1.\<close>

definition storeBucket :: "Deps \<Rightarrow> StoragePackerV2 \<Rightarrow> nat \<Rightarrow> error option \<times> StoragePackerV2" where
  "storeBucket d s bucket =
     (if queueMode s = 1
      then (None, s\<lparr>queuedBuckets := AList.update (Key (objects s bucket)) bucket (queuedBuckets s)\<rparr>)
      else
        case Marshal d (objects s bucket) of
          Inl err \<Rightarrow> (Some (Wrapf ''failed to marshal bucket: '' err), s)
        | Inr marshaledBucket \<Rightarrow>
            (case Compress d marshaledBucket of
               Inl err \<Rightarrow> (Some (Wrapf ''failed to compress packed bucket: '' err), s)
             | Inr compressedBucket \<Rightarrow>
                 (case View_Put (BucketStorageView s)
                         (StorageEntry (Key (objects s bucket)) compressedBucket) of
                    (Some err, v) \<Rightarrow>
                      (Some (Wrapf ''failed to persist packed storage entry: '' err),
                       s\<lparr>BucketStorageView := v\<rparr>)
                  | (None, v) \<Rightarrow> (None, s\<lparr>BucketStorageView := v\<rparr>))))"

text \<open>
  \<^verbatim>\<open>shardBucket\<close>. In Go \<^verbatim>\<open>2^s.BucketShardBits\<close> is the exclusive or of 2 and the shard
  bits. Each round of the loop assigns a new empty bucket to the entry of
  \<^verbatim>\<open>bucket.Buckets\<close> named by the counter in hexadecimal; the assignment panics when the
  map is nil. The statements after the loop name a variable \<^verbatim>\<open>hexVal\<close> that the function
  does not declare and take a read lock, and the function ends without a return
  statement: the model ends after the loop and returns nil.
\<close>

function shardBucket_loop :: "int \<Rightarrow> int \<Rightarrow> Bucket \<Rightarrow> error + Bucket" where
  "shardBucket_loop i n bucket =
     (if i < n then
        (case Buckets bucket of
           None \<Rightarrow> Inl (Panic ''assignment to entry in nil map'')
         | Some m \<Rightarrow>
             shardBucket_loop (i + 1) n
               (Bucket (Key bucket) (ItemMap bucket)
                  (Some (m(Sprintf_x (nat i) \<mapsto> Bucket [] None None)))))
      else Inr bucket)"
  by pat_completeness auto
termination
  by (relation "measure (\<lambda>(i, n, bucket). nat (n - i))") auto

definition shardBucket :: "Deps \<Rightarrow> StoragePackerV2 \<Rightarrow> nat \<Rightarrow> error option \<times> StoragePackerV2" where
  "shardBucket d s bucket =
     (case shardBucket_loop 0 (2 XOR BucketShardBits s) (objects s bucket) of
        Inl e \<Rightarrow> (Some e, s)
      | Inr b \<Rightarrow> (None, s\<lparr>objects := (objects s)(bucket := b)\<rparr>))"

definition PutBucket ::
  "Deps \<Rightarrow> StoragePackerV2 \<Rightarrow> nat option \<Rightarrow> error option \<times> StoragePackerV2" where
  "PutBucket d s bucket =
     (case bucket of
        None \<Rightarrow> (Some (Errorf ''nil bucket entry''), s)
      | Some b \<Rightarrow>
          if Key (objects s b) = [] then (Some (Errorf ''missing key''), s)
          else
            (case storeBucket d s b of
               (None, s1) \<Rightarrow>
                 (None, s1\<lparr>bucketsCache := (bucketsCache s1)(GetCacheKey (Key (objects s1 b)) \<mapsto> b)\<rparr>)
             | (Some err, s1) \<Rightarrow>
                 (case (if Contains (Error err) ErrValueTooLarge then shardBucket d s1 b
                        else (Some err, s1)) of
                    (Some err', s2) \<Rightarrow> (Some err', s2)
                  | (None, s2) \<Rightarrow>
                      (None, s2\<lparr>bucketsCache :=
                                   (bucketsCache s2)(GetCacheKey (Key (objects s2 b)) \<mapsto> b)\<rparr>))))"

text \<open>\<^verbatim>\<open>upsert\<close> on the bucket at an address; the receiver and the item may be nil.\<close>

definition upsert ::
  "StoragePackerV2 \<Rightarrow> nat option \<Rightarrow> Item option \<Rightarrow> error option \<times> StoragePackerV2" where
  "upsert p s item =
     (case s of
        None \<Rightarrow> (Some (Errorf ''nil storage bucket''), p)
      | Some a \<Rightarrow>
          (case item of
             None \<Rightarrow> (Some (Errorf ''nil item''), p)
           | Some it \<Rightarrow>
               if ID it = [] then (Some (Errorf ''missing item ID''), p)
               else
                 (let b = objects p a;
                      m = (case ItemMap b of None \<Rightarrow> Map.empty | Some f \<Rightarrow> f)
                  in (None, p\<lparr>objects :=
                                 (objects p)(a := Bucket (Key b) (Some (m(ID it \<mapsto> Message it)))
                                                   (Buckets b))\<rparr>))))"

text \<open>The part of \<^verbatim>\<open>DeleteItem\<close> that runs once the bucket is at hand and locked.\<close>

definition DeleteItem_locked ::
  "Deps \<Rightarrow> StoragePackerV2 \<Rightarrow> nat \<Rightarrow> string \<Rightarrow> error option \<times> StoragePackerV2" where
  "DeleteItem_locked d s bucket itemID =
     (if len_is_0 (ItemMap (objects s bucket)) then (None, s)
      else
        case index_map (ItemMap (objects s bucket)) itemID of
          None \<Rightarrow> (None, s)
        | Some _ \<Rightarrow>
            (let b = objects s bucket in
             storeBucket d
               (s\<lparr>objects := (objects s)(bucket := Bucket (Key b) (delete_map (ItemMap b) itemID)
                                                      (Buckets b))\<rparr>)
               bucket))"

definition DeleteItem :: "Deps \<Rightarrow> StoragePackerV2 \<Rightarrow> string \<Rightarrow> error option \<times> StoragePackerV2" where
  "DeleteItem d s itemID =
     (if itemID = [] then (Some (Errorf ''empty item ID''), s)
      else
        case BucketStorageKeyForItemID d s itemID of
          Inl e \<Rightarrow> (Some e, s)
        | Inr bucketKey \<Rightarrow>
            (let cacheKey = GetCacheKey bucketKey in
             case LongestPrefix (bucketsCache s) cacheKey of
               Some (_, bucketRaw) \<Rightarrow> DeleteItem_locked d s bucketRaw itemID
             | None \<Rightarrow>
                 (case View_Get (BucketStorageView s) bucketKey of
                    Inl err \<Rightarrow> (Some (Wrapf ''failed to read packed storage value: '' err), s)
                  | Inr None \<Rightarrow> (None, s)
                  | Inr (Some storageEntry) \<Rightarrow>
                      (case DecodeBucket d s storageEntry of
                         Inl err \<Rightarrow>
                           (Some (Wrapf ''error decoding existing storage entry for upsert: '' err), s)
                       | Inr (bucket, s1) \<Rightarrow>
                           DeleteItem_locked d
                             (s1\<lparr>bucketsCache := (bucketsCache s1)(cacheKey \<mapsto> bucket)\<rparr>)
                             bucket itemID))))"

text \<open>The part of \<^verbatim>\<open>GetItem\<close> that runs once the bucket is at hand and locked.\<close>

definition GetItem_locked :: "StoragePackerV2 \<Rightarrow> nat \<Rightarrow> string \<Rightarrow> Item option" where
  "GetItem_locked s bucket itemID =
     (if len_is_0 (ItemMap (objects s bucket)) then None
      else
        case index_map (ItemMap (objects s bucket)) itemID of
          None \<Rightarrow> None
        | Some item \<Rightarrow> Some \<lparr>ID = itemID, Message = item\<rparr>)"

definition GetItem ::
  "Deps \<Rightarrow> StoragePackerV2 \<Rightarrow> string \<Rightarrow> (error + Item option) \<times> StoragePackerV2" where
  "GetItem d s itemID =
     (if itemID = [] then (Inl (Errorf ''empty item ID''), s)
      else
        case BucketStorageKeyForItemID d s itemID of
          Inl e \<Rightarrow> (Inl e, s)
        | Inr bucketKey \<Rightarrow>
            (let cacheKey = GetCacheKey bucketKey in
             case LongestPrefix (bucketsCache s) cacheKey of
               Some (_, bucketRaw) \<Rightarrow> (Inr (GetItem_locked s bucketRaw itemID), s)
             | None \<Rightarrow>
                 (case View_Get (BucketStorageView s) bucketKey of
                    Inl err \<Rightarrow> (Inl (Wrapf ''failed to read packed storage value: '' err), s)
                  | Inr None \<Rightarrow> (Inr None, s)
                  | Inr (Some storageEntry) \<Rightarrow>
                      (case DecodeBucket d s storageEntry of
                         Inl err \<Rightarrow>
                           (Inl (Wrapf ''error decoding existing storage entry for upsert: '' err), s)
                       | Inr (bucket, s1) \<Rightarrow>
                           (let s2 = s1\<lparr>bucketsCache := (bucketsCache s1)(cacheKey \<mapsto> bucket)\<rparr>
                            in (Inr (GetItem_locked s2 bucket itemID), s2))))))"

text \<open>The part of \<^verbatim>\<open>PutItem\<close> that runs once the bucket is at hand and locked.\<close>

definition PutItem_locked ::
  "Deps \<Rightarrow> StoragePackerV2 \<Rightarrow> nat \<Rightarrow> Item \<Rightarrow> error option \<times> StoragePackerV2" where
  "PutItem_locked d s bucket item =
     (case upsert s (Some bucket) (Some item) of
        (Some err, s1) \<Rightarrow>
          (Some (Wrapf ''failed to update entry in packed storage entry: '' err), s1)
      | (None, s1) \<Rightarrow> storeBucket d s1 bucket)"

definition PutItem ::
  "Deps \<Rightarrow> StoragePackerV2 \<Rightarrow> Item option \<Rightarrow> error option \<times> StoragePackerV2" where
  "PutItem d s item0 =
     (case item0 of
        None \<Rightarrow> (Some (Errorf ''nil item''), s)
      | Some item \<Rightarrow>
          if ID item = [] then (Some (Errorf ''missing ID in item''), s)
          else
            (case BucketStorageKeyForItemID d s (ID item) of
               Inl e \<Rightarrow> (Some e, s)
             | Inr bucketKey \<Rightarrow>
                 (let cacheKey = GetCacheKey bucketKey in
                  case LongestPrefix (bucketsCache s) cacheKey of
                    Some (_, bucketRaw) \<Rightarrow> PutItem_locked d s bucketRaw item
                  | None \<Rightarrow>
                      (case View_Get (BucketStorageView s) bucketKey of
                         Inl err \<Rightarrow>
                           (Some (Wrapf ''failed to read packed storage value: '' err), s)
                       | Inr None \<Rightarrow>
                           (case new_object s (Bucket bucketKey None None) of
                              (bucket, s1) \<Rightarrow>
                                PutItem_locked d
                                  (s1\<lparr>bucketsCache := (bucketsCache s1)(cacheKey \<mapsto> bucket)\<rparr>)
                                  bucket item)
                       | Inr (Some storageEntry) \<Rightarrow>
                           (case DecodeBucket d s storageEntry of
                              Inl err \<Rightarrow>
                                (Some (Wrapf
                                   ''error decoding existing storage entry for upsert: '' err), s)
                            | Inr (bucket, s1) \<Rightarrow>
                                PutItem_locked d
                                  (s1\<lparr>bucketsCache := (bucketsCache s1)(cacheKey \<mapsto> bucket)\<rparr>)
                                  bucket item)))))"

text \<open>\<^verbatim>\<open>fmt\<close>'s verb \<^verbatim>\<open>%d\<close> of an integer.\<close>

function digits_d :: "nat \<Rightarrow> string" where
  "digits_d i =
     (if i < 10 then [''0123456789'' ! i] else digits_d (i div 10) @ [''0123456789'' ! (i mod 10)])"
  by pat_completeness auto
termination
  by (relation "measure id") auto

definition Sprintf_d :: "int \<Rightarrow> string" where
  "Sprintf_d i = (if i < 0 then CHR ''-'' # digits_d (nat (- i)) else digits_d (nat i))"

text \<open>
  \<^verbatim>\<open>NewStoragePackerV2\<close>. The function changes the configuration it is given and keeps
  it in the packer it returns; \<^verbatim>\<open>needPersist\<close> is declared, so false, and the one
  assignment to it sets it to false. The store of objects of a new packer is empty.
\<close>

definition NewStoragePackerV2 :: "Deps \<Rightarrow> Config \<Rightarrow> error + StoragePackerV2" where
  "NewStoragePackerV2 d config0 =
     (case BucketStorageView config0 of
        None \<Rightarrow> Inl (Errorf ''nil buckets view'')
      | Some bucketView \<Rightarrow>
          (let config1 = config0\<lparr>BucketStorageView := Some (SubView bucketView ''v2/'')\<rparr> in
           if ConfigStorageView config1 = None then Inl (Errorf ''nil config view'')
           else
             (let config2 = (if BaseBucketBits config1 = 0
                             then config1\<lparr>BaseBucketBits := defaultBaseBucketBits\<rparr> else config1);
                  needPersist0 = False
              in
              case View_Get (ConfigStorageView config2) ''config'' of
                Inl err \<Rightarrow> Inl (Wrapf ''error checking for existing storagepacker config: '' err)
              | Inr entry \<Rightarrow>
                  (case (case entry of
                           None \<Rightarrow> Inr (needPersist0, config2)
                         | Some e \<Rightarrow>
                             (case DecodeJSON d (Value e) of
                                Inl err \<Rightarrow>
                                  Inl (Wrapf ''error decoding existing storagepacker config: '' err)
                              | Inr exist \<Rightarrow> Inr (False, config2\<lparr>BaseBucketBits := exist\<rparr>))) of
                     Inl err \<Rightarrow> Inl err
                   | Inr (needPersist, config3) \<Rightarrow>
                       (let config = (if BucketShardBits config3 = 0
                                      then config3\<lparr>BucketShardBits := defaultBucketShardBits\<rparr>
                                      else config3)
                        in
                        if BaseBucketBits config smod 4 \<noteq> 0
                        then Inl (Errorf (''bucket base bits of '' @ Sprintf_d (BaseBucketBits config)
                                            @ '' is not a multiple of four''))
                        else if BucketShardBits config smod 4 \<noteq> 0
                        then Inl (Errorf (''bucket shard count of '' @ Sprintf_d (BucketShardBits config)
                                            @ '' is not a power of two''))
                        else if BaseBucketBits config < 4
                        then Inl (Errorf ''bucket base bits should be at least 4'')
                        else if BucketShardBits config < 4
                        then Inl (Errorf ''bucket shard count should at least be 4'')
                        else
                          (case (if needPersist
                                 then (case StorageEntryJSON d (BaseBucketBits config) of
                                         Inl err \<Rightarrow>
                                           Inl (Wrapf ''error encoding storagepacker config: '' err)
                                       | Inr val \<Rightarrow>
                                           (case View_Put (ConfigStorageView config)
                                                   (StorageEntry ''config'' val) of
                                              (Some err, v) \<Rightarrow>
                                                Inl (Wrapf ''error storing storagepacker config: '' err)
                                            | (None, v) \<Rightarrow> Inr (config\<lparr>ConfigStorageView := v\<rparr>)))
                                 else Inr config) of
                             Inl err \<Rightarrow> Inl err
                           | Inr config' \<Rightarrow>
                               Inr \<lparr>BucketStorageView = BucketStorageView config',
                                    ConfigStorageView = ConfigStorageView config',
                                    BaseBucketBits = BaseBucketBits config',
                                    BucketShardBits = BucketShardBits config',
                                    bucketsCache = Map.empty,
                                    queueMode = 0,
                                    queuedBuckets = [],
                                    objects = (\<lambda>_. Bucket [] None None),
                                    nextObject = 0\<rparr>))))))"

definition SetQueueMode :: "StoragePackerV2 \<Rightarrow> bool \<Rightarrow> StoragePackerV2" where
  "SetQueueMode s enabled = (if enabled then s\<lparr>queueMode := 1\<rparr> else s\<lparr>queueMode := 0\<rparr>)"

text \<open>
  \<^verbatim>\<open>FlushQueue\<close>. \<^verbatim>\<open>Range\<close> visits the entries the map has when it starts; its function
  stores the bucket, appends the error if there is one, and deletes the key it was given.
  A \<^verbatim>\<open>*multierror.Error\<close> is the list of its errors, and \<^verbatim>\<open>ErrorOrNil\<close> is nil when
  there is none.
\<close>

fun FlushQueue_Range ::
  "Deps \<Rightarrow> (string \<times> nat) list \<Rightarrow> error list \<times> StoragePackerV2 \<Rightarrow> error list \<times> StoragePackerV2"
  where
  "FlushQueue_Range d [] (err, s) = (err, s)"
| "FlushQueue_Range d ((key, val) # rest) (err, s) =
     (case storeBucket d s val of
        (lErr, s1) \<Rightarrow>
          FlushQueue_Range d rest
            ((case lErr of None \<Rightarrow> err | Some e \<Rightarrow> err @ [e]),
             s1\<lparr>queuedBuckets := AList.delete key (queuedBuckets s1)\<rparr>))"

definition ErrorOrNil :: "error list \<Rightarrow> error list option" where
  "ErrorOrNil err = (if err = [] then None else Some err)"

definition FlushQueue :: "Deps \<Rightarrow> StoragePackerV2 \<Rightarrow> error list option \<times> StoragePackerV2" where
  "FlushQueue d s =
     (case FlushQueue_Range d (queuedBuckets s) ([], s) of (err, s') \<Rightarrow> (ErrorOrNil err, s'))"

subsection \<open>Notions used to state and prove the properties\<close>

text \<open>
  \<^verbatim>\<open>GetItem\<close>, \<^verbatim>\<open>DeleteItem\<close> and \<^verbatim>\<open>PutItem\<close> begin with the same statements: they
  compute the bucket key, look the cache key up and, on a miss, read the bucket from the
  view, decode it and insert it into the cache. \<open>fetch\<close> is this common beginning. It
  fails, or finds no bucket under the key, or yields the address of the bucket and the
  packer that has it in its cache.
\<close>

datatype fetched = Failed error | Absent string | Present nat StoragePackerV2

definition fetch :: "Deps \<Rightarrow> StoragePackerV2 \<Rightarrow> string \<Rightarrow> fetched" where
  "fetch d s itemID =
     (case BucketStorageKeyForItemID d s itemID of
        Inl e \<Rightarrow> Failed e
      | Inr bucketKey \<Rightarrow>
          (let cacheKey = GetCacheKey bucketKey in
           case LongestPrefix (bucketsCache s) cacheKey of
             Some (_, bucketRaw) \<Rightarrow> Present bucketRaw s
           | None \<Rightarrow>
               (case View_Get (BucketStorageView s) bucketKey of
                  Inl err \<Rightarrow> Failed (Wrapf ''failed to read packed storage value: '' err)
                | Inr None \<Rightarrow> Absent bucketKey
                | Inr (Some storageEntry) \<Rightarrow>
                    (case DecodeBucket d s storageEntry of
                       Inl err \<Rightarrow>
                         Failed (Wrapf ''error decoding existing storage entry for upsert: '' err)
                     | Inr (bucket, s1) \<Rightarrow>
                         Present bucket
                           (s1\<lparr>bucketsCache := (bucketsCache s1)(cacheKey \<mapsto> bucket)\<rparr>)))))"

text \<open>
  The cache resolves an identifier to the bucket at an address when the digest hits a
  bucket in the cache and the cache key of that bucket's key hits the address.
\<close>

definition located :: "Deps \<Rightarrow> StoragePackerV2 \<Rightarrow> string \<Rightarrow> nat \<Rightarrow> bool" where
  "located d s itemID a =
     (\<exists>k1 a1 k2.
        LongestPrefix (bucketsCache s) (EncodeToString (Blake2b256Hash d itemID)) = Some (k1, a1)
        \<and> LongestPrefix (bucketsCache s) (GetCacheKey (Key (objects s a1))) = Some (k2, a))"

text \<open>Every address in the cache is the address of an object that has been allocated.\<close>

definition cache_fresh :: "StoragePackerV2 \<Rightarrow> bool" where
  "cache_fresh s = (ran (bucketsCache s) \<subseteq> {..<nextObject s})"

text \<open>
  What a call on one identifier leaves alone for another identifier \<open>itemID\<close>: the keys
  of the objects that exist and their entries for \<open>itemID\<close>, and every hit of the cache.
\<close>

definition frame :: "string \<Rightarrow> StoragePackerV2 \<Rightarrow> StoragePackerV2 \<Rightarrow> bool" where
  "frame itemID s s' =
     (nextObject s \<le> nextObject s'
      \<and> (\<forall>a. a < nextObject s \<longrightarrow>
             Key (objects s' a) = Key (objects s a)
             \<and> index_map (ItemMap (objects s' a)) itemID = index_map (ItemMap (objects s a)) itemID)
      \<and> (\<forall>x r. LongestPrefix (bucketsCache s) x = Some r
             \<longrightarrow> LongestPrefix (bucketsCache s') x = Some r)
      \<and> cache_fresh s')"

text \<open>The calls a user of the packer makes one after the other, and the packer after each.\<close>

datatype call =
  CallPutItem "Item option" | CallDeleteItem string | CallGetItem string
  | CallSetQueueMode bool | CallFlushQueue

fun step :: "Deps \<Rightarrow> StoragePackerV2 \<Rightarrow> call \<Rightarrow> StoragePackerV2" where
  "step d s (CallPutItem item) = snd (PutItem d s item)"
| "step d s (CallDeleteItem itemID) = snd (DeleteItem d s itemID)"
| "step d s (CallGetItem itemID) = snd (GetItem d s itemID)"
| "step d s (CallSetQueueMode enabled) = SetQueueMode s enabled"
| "step d s CallFlushQueue = snd (FlushQueue d s)"

text \<open>The calls that write the item of an identifier or remove it.\<close>

fun writes :: "string \<Rightarrow> call \<Rightarrow> bool" where
  "writes itemID (CallPutItem None) = False"
| "writes itemID (CallPutItem (Some item)) = (ID item = itemID)"
| "writes itemID (CallDeleteItem i) = (i = itemID)"
| "writes itemID (CallGetItem i) = False"
| "writes itemID (CallSetQueueMode enabled) = False"
| "writes itemID CallFlushQueue = False"

text \<open>The packer with one more object, entered into the cache under a key.\<close>

definition grown :: "StoragePackerV2 \<Rightarrow> string \<Rightarrow> Bucket \<Rightarrow> StoragePackerV2" where
  "grown s c b =
     s\<lparr>objects := (objects s)(nextObject s := b), nextObject := Suc (nextObject s),
       bucketsCache := (bucketsCache s)(c \<mapsto> nextObject s)\<rparr>"

text \<open>The cache resolves the identifier of an item to a bucket that holds the item.\<close>

definition cached_item :: "Deps \<Rightarrow> StoragePackerV2 \<Rightarrow> Item \<Rightarrow> bool" where
  "cached_item d s item =
     (\<exists>a. located d s (ID item) a
          \<and> index_map (ItemMap (objects s a)) (ID item) = Some (Message item))"

text \<open>
  The queue of pending writes as \<^verbatim>\<open>storeBucket\<close> fills it: a map, so no key twice, and
  every bucket under its own key.
\<close>

definition queue_filed :: "StoragePackerV2 \<Rightarrow> bool" where
  "queue_filed s =
     (distinct (map fst (queuedBuckets s))
      \<and> (\<forall>(k, a)\<in>set (queuedBuckets s). Key (objects s a) = k))"

text \<open>Two packers in which a put of the same bucket fails or succeeds alike.\<close>

definition same_faults :: "StoragePackerV2 \<Rightarrow> StoragePackerV2 \<Rightarrow> bool" where
  "same_faults s s' =
     (objects s' = objects s \<and> queueMode s' = queueMode s
      \<and> map_option (\<lambda>v. (viewPrefix v, maxEntrySize v, putFault v)) (BucketStorageView s') =
          map_option (\<lambda>v. (viewPrefix v, maxEntrySize v, putFault v)) (BucketStorageView s))"

text \<open>
  What holds of a packer that \<^verbatim>\<open>NewStoragePackerV2\<close> returned, after any calls: the
  addresses in the cache and in the queue are addresses of allocated objects, and the
  queue is filed by key.
\<close>

definition queue_fresh :: "StoragePackerV2 \<Rightarrow> bool" where
  "queue_fresh s = (snd ` set (queuedBuckets s) \<subseteq> {..<nextObject s})"

definition packer_inv :: "StoragePackerV2 \<Rightarrow> bool" where
  "packer_inv s = (cache_fresh s \<and> queue_fresh s \<and> queue_filed s)"

subsection \<open>An instance to run the model on\<close>

text \<open>
  A small instance of the parameters: the hash of an identifier is its length, 32 times;
  a marshalled bucket is the length of its key; an unmarshalled bucket carries the key
  \<open>stale\<close> and nothing else; compression puts the byte 1 in front.
\<close>

definition demoDeps :: Deps where
  "demoDeps =
     \<lparr>Blake2b256Hash = (\<lambda>itemID. replicate 32 (of_nat (length itemID))),
      Marshal = (\<lambda>b. Inr [of_nat (length (Key b))]),
      Unmarshal = (\<lambda>bs. Inr (Bucket ''stale'' None None)),
      Compress = (\<lambda>bs. Inr (1 # bs)),
      Decompress = (\<lambda>bs. case bs of [] \<Rightarrow> Inl (Errorf ''empty'')
                          | b # rest \<Rightarrow> if b = 1 then Inr (rest, False) else Inr ([], True)),
      StorageEntryJSON = (\<lambda>n. Inr [of_int n]),
      DecodeJSON = (\<lambda>bs. case bs of [] \<Rightarrow> Inl (Errorf ''empty'') | b # _ \<Rightarrow> Inr (uint b))\<rparr>"

definition demoView :: StorageView where
  "demoView =
     \<lparr>entries = Map.empty, viewPrefix = [], maxEntrySize = 100,
      getFault = (\<lambda>_. None), putFault = (\<lambda>_. None)\<rparr>"

definition demoPacker :: StoragePackerV2 where
  "demoPacker =
     \<lparr>BucketStorageView = Some demoView, ConfigStorageView = Some demoView,
      BaseBucketBits = 8, BucketShardBits = 4, bucketsCache = Map.empty, queueMode = 0,
      queuedBuckets = [], objects = (\<lambda>_. Bucket [] None None), nextObject = 0\<rparr>"

definition alice :: Item where
  "alice = \<lparr>ID = ''alice'', Message = Some (''t'', [7])\<rparr>"

definition bob :: Item where
  "bob = \<lparr>ID = ''bob'', Message = Some (''t'', [9])\<rparr>"

text \<open>A packer whose backend takes no value at all: every put is too large.\<close>

definition tinyPacker :: StoragePackerV2 where
  "tinyPacker = demoPacker\<lparr>BucketStorageView := Some (demoView\<lparr>maxEntrySize := 0\<rparr>)\<rparr>"

text \<open>
  A packer that holds, at address 0, the bucket \<open>05\<close> with the item \<open>alice\<close> and a map
  of sub-buckets that is empty but not nil.
\<close>

definition shardDemo :: StoragePackerV2 where
  "shardDemo =
     demoPacker\<lparr>objects := (objects demoPacker)
                   (0 := Bucket ''05'' (Some [''alice'' \<mapsto> Some (''t'', [7])]) (Some Map.empty)),
                 nextObject := 1\<rparr>"

text \<open>A packer whose backend fails every put with an I/O error.\<close>

definition brokenPacker :: StoragePackerV2 where
  "brokenPacker =
     demoPacker\<lparr>BucketStorageView :=
                   Some (demoView\<lparr>putFault := (\<lambda>_. Some (Errorf ''i/o timeout''))\<rparr>)\<rparr>"

text \<open>The bucket of \<open>shardDemo\<close> in a packer whose backend takes no value at all.\<close>

definition tinyShard :: StoragePackerV2 where
  "tinyShard = shardDemo\<lparr>BucketStorageView := Some (demoView\<lparr>maxEntrySize := 0\<rparr>)\<rparr>"

text \<open>A configuration with 16 base bits, on a configuration store that holds nothing.\<close>

definition freshConfig :: Config where
  "freshConfig =
     \<lparr>BucketStorageView = Some demoView, ConfigStorageView = Some demoView,
      BaseBucketBits = 16, BucketShardBits = 0\<rparr>"

text \<open>The packer \<open>demoPacker\<close> after the item \<open>alice\<close> was put.\<close>

definition afterAlice :: StoragePackerV2 where
  "afterAlice = snd (PutItem demoDeps demoPacker (Some alice))"

text \<open>
  The packer \<open>afterAlice\<close> once its backend has begun to fail every put with an I/O
  error, with the entries it had; and the item \<open>alice\<close> with another payload.
\<close>

definition flakyPacker :: StoragePackerV2 where
  "flakyPacker =
     afterAlice\<lparr>BucketStorageView :=
                   map_option (\<lambda>v. v\<lparr>putFault := (\<lambda>_. Some (Errorf ''i/o timeout''))\<rparr>)
                     (BucketStorageView afterAlice)\<rparr>"

definition alice2 :: Item where
  "alice2 = \<lparr>ID = ''alice'', Message = Some (''t'', [8])\<rparr>"


definition queuedBroken :: StoragePackerV2 where
  "queuedBroken =
     SetQueueMode (snd (PutItem demoDeps (SetQueueMode brokenPacker True) (Some alice))) False"

section \<open>Properties\<close>

subsection \<open>Decoding a bucket\<close>

text \<open>
  C9. Whenever \<^verbatim>\<open>DecodeBucket\<close> succeeds, the key of the bucket it returns is the key of
  the storage entry, whatever key the serialized bytes carry.
\<close>

theorem DecodeBucket_Key:
  "DecodeBucket d s storageEntry = Inr (lb, s') \<Longrightarrow> Key (objects s' lb) = EntryKey storageEntry"
  by (auto simp: DecodeBucket_def new_object_def Let_def split: sum.splits prod.splits)

theorem DecodeBucket_Key_witness:
  "DecodeBucket demoDeps demoPacker (StorageEntry ''05'' [1, 2]) =
     Inr (0, snd (new_object demoPacker (Bucket ''05'' None None)))
   \<and> Unmarshal demoDeps [2] = Inr (Bucket ''stale'' None None)
   \<and> Key (objects (snd (new_object demoPacker (Bucket ''05'' None None))) 0) = ''05''"
proof -
  have run: "DecodeBucket demoDeps demoPacker (StorageEntry ''05'' [1, 2]) =
      Inr (0, snd (new_object demoPacker (Bucket ''05'' None None)))"
    by (simp add: DecodeBucket_def demoDeps_def new_object_def demoPacker_def)
  from DecodeBucket_Key [OF run] run show ?thesis
    by (simp add: demoDeps_def)
qed

subsection \<open>The instance, field by field\<close>

lemma demoDeps_fields:
  "Blake2b256Hash demoDeps itemID = replicate 32 (of_nat (length itemID))"
  "Marshal demoDeps b = Inr [of_nat (length (Key b))]"
  "Unmarshal demoDeps bs = Inr (Bucket ''stale'' None None)"
  "Compress demoDeps bs = Inr (1 # bs)"
  "StorageEntryJSON demoDeps n = Inr [of_int n]"
  by (simp_all add: demoDeps_def)

lemma demoView_fields:
  "entries demoView = Map.empty"
  "viewPrefix demoView = []"
  "maxEntrySize demoView = 100"
  "getFault demoView k = None"
  "putFault demoView k = None"
  by (simp_all add: demoView_def)

lemma demoPacker_fields:
  "BucketStorageView demoPacker = Some demoView"
  "ConfigStorageView demoPacker = Some demoView"
  "BaseBucketBits demoPacker = 8"
  "BucketShardBits demoPacker = 4"
  "bucketsCache demoPacker = Map.empty"
  "queueMode demoPacker = 0"
  "queuedBuckets demoPacker = []"
  "objects demoPacker a = Bucket [] None None"
  "nextObject demoPacker = 0"
  by (simp_all add: demoPacker_def)

lemma tinyPacker_fields:
  "BucketStorageView tinyPacker = Some (demoView\<lparr>maxEntrySize := 0\<rparr>)"
  "BaseBucketBits tinyPacker = 8"
  "bucketsCache tinyPacker = Map.empty"
  "queueMode tinyPacker = 0"
  "queuedBuckets tinyPacker = []"
  "objects tinyPacker a = Bucket [] None None"
  "nextObject tinyPacker = 0"
  by (simp_all add: tinyPacker_def demoPacker_def)

lemma demo_hexVal:
  "EncodeToString (Blake2b256Hash demoDeps ''alice'') =
     ''0505050505050505050505050505050505050505050505050505050505050505''"
  by code_simp

subsection \<open>The longest prefix in the cache\<close>

lemma LongestPrefix_Nil:
  "LongestPrefix t [] = (case t [] of Some v \<Rightarrow> Some ([], v) | None \<Rightarrow> None)"
  by (simp add: LongestPrefix_def split: option.splits)

lemma LongestPrefix_snoc:
  "LongestPrefix t (s @ [c]) =
     (case t (s @ [c]) of Some v \<Rightarrow> Some (s @ [c], v) | None \<Rightarrow> LongestPrefix t s)"
  by (simp add: LongestPrefix_def split: option.splits)

lemma LongestPrefix_None_iff:
  "LongestPrefix t s = None \<longleftrightarrow> (\<forall>p. prefix p s \<longrightarrow> t p = None)"
proof (induction s rule: rev_induct)
  case Nil
  then show ?case by (simp add: LongestPrefix_Nil split: option.splits)
next
  case (snoc c s)
  then show ?case
    by (auto simp: LongestPrefix_snoc prefix_snoc split: option.splits)
qed

lemma LongestPrefix_Some_iff:
  "LongestPrefix t s = Some (k, v) \<longleftrightarrow>
     prefix k s \<and> t k = Some v \<and> (\<forall>p. prefix p s \<and> t p \<noteq> None \<longrightarrow> length p \<le> length k)"
proof (induction s rule: rev_induct)
  case Nil
  then show ?case by (auto simp: LongestPrefix_Nil split: option.splits)
next
  case (snoc c s)
  show ?case
  proof (cases "t (s @ [c])")
    case None
    then have "LongestPrefix t (s @ [c]) = LongestPrefix t s"
      by (simp add: LongestPrefix_snoc)
    with snoc None show ?thesis
      by (auto simp: prefix_snoc)
  next
    case (Some w)
    then have run: "LongestPrefix t (s @ [c]) = Some (s @ [c], w)"
      by (simp add: LongestPrefix_snoc)
    show ?thesis
    proof
      assume "LongestPrefix t (s @ [c]) = Some (k, v)"
      with run have "k = s @ [c]" "v = w" by simp_all
      with Some show "prefix k (s @ [c]) \<and> t k = Some v \<and>
          (\<forall>p. prefix p (s @ [c]) \<and> t p \<noteq> None \<longrightarrow> length p \<le> length k)"
        by (auto dest: prefix_length_le)
    next
      assume r: "prefix k (s @ [c]) \<and> t k = Some v \<and>
          (\<forall>p. prefix p (s @ [c]) \<and> t p \<noteq> None \<longrightarrow> length p \<le> length k)"
      then have "length (s @ [c]) \<le> length k" using Some by auto
      with r have "k = s @ [c]"
        by (metis prefix_length_le le_antisym prefix_length_prefix prefix_order.order_refl
            prefix_order.antisym)
      with r Some run show "LongestPrefix t (s @ [c]) = Some (k, v)" by simp
    qed
  qed
qed

lemma LongestPrefix_empty: "LongestPrefix Map.empty s = None"
  by (simp add: LongestPrefix_None_iff)

lemma LongestPrefix_self: "t k = Some v \<Longrightarrow> LongestPrefix t k = Some (k, v)"
  by (auto simp: LongestPrefix_Some_iff dest: prefix_length_le)

lemma LongestPrefix_prefix_None:
  "LongestPrefix t x = None \<Longrightarrow> prefix c x \<Longrightarrow> LongestPrefix t c = None"
  by (meson LongestPrefix_None_iff prefix_order.trans)

lemma LongestPrefix_insert_first:
  "LongestPrefix t x = None \<Longrightarrow> prefix c x \<Longrightarrow> LongestPrefix (t(c \<mapsto> a)) x = Some (c, a)"
  by (auto simp: LongestPrefix_Some_iff LongestPrefix_None_iff)

text \<open>Inserting a key that has no prefix in the tree leaves every earlier hit as it was.\<close>

lemma LongestPrefix_insert_stable:
  assumes "LongestPrefix t c = None" and "LongestPrefix t x = Some r"
  shows "LongestPrefix (t(c \<mapsto> a)) x = Some r"
proof -
  obtain k v where r: "r = (k, v)" by (cases r)
  from assms(2) r have k: "prefix k x" "t k = Some v"
    and longest: "\<And>p. prefix p x \<Longrightarrow> t p \<noteq> None \<Longrightarrow> length p \<le> length k"
    by (auto simp: LongestPrefix_Some_iff)
  from assms(1) have none: "\<And>p. prefix p c \<Longrightarrow> t p = None"
    by (simp add: LongestPrefix_None_iff)
  from none k have nk: "\<not> prefix k c" by auto
  then have "c \<noteq> k" by auto
  moreover have "length c \<le> length k" if "prefix c x"
  proof -
    from that k(1) have "prefix c k \<or> prefix k c"
      using prefix_same_cases by blast
    with nk show ?thesis by (auto dest: prefix_length_le)
  qed
  ultimately show ?thesis
    using k longest unfolding r LongestPrefix_Some_iff by auto
qed

subsection \<open>The hexadecimal digest\<close>

lemma hex_digits_small:
  fixes v :: "8 word"
  shows "unat (drop_bit 4 v) < 16" and "unat (v AND 0x0f) < 16"
proof -
  have "unat v < 256" using unsigned_less [of v, where 'a = nat] by simp
  then show "unat (drop_bit 4 v) < 16"
    by (simp add: drop_bit_eq_div unat_div)
  have "v AND 0x0f \<le> 0x0f" by (rule word_and_le1)
  then show "unat (v AND 0x0f) < 16"
    by (simp add: word_le_nat_alt)
qed

lemma EncodeToString_hextable: "set (EncodeToString src) \<subseteq> set hextable"
proof -
  have "length hextable = 16" by (simp add: hextable_def)
  then have "hextable ! unat (drop_bit 4 v) \<in> set hextable"
    and "hextable ! unat (v AND 0x0f) \<in> set hextable" for v :: "8 word"
    using hex_digits_small [of v] by (simp_all del: drop_bit_word_numeral and_numerals)
  then show ?thesis
    unfolding EncodeToString_def by (auto simp del: drop_bit_word_numeral and_numerals)
qed

lemma EncodeToString_no_slash: "CHR ''/'' \<notin> set (EncodeToString src)"
proof -
  have "CHR ''/'' \<notin> set hextable" by (simp add: hextable_def)
  with EncodeToString_hextable show ?thesis by blast
qed

lemma length_EncodeToString: "length (EncodeToString src) = 2 * length src"
  by (induction src) (simp_all add: EncodeToString_def)

lemma GetCacheKey_id: "CHR ''/'' \<notin> set key \<Longrightarrow> GetCacheKey key = key"
  by (induction key) (auto simp: GetCacheKey_def)

subsection \<open>Routing an item to its bucket\<close>

text \<open>
  C4. \<^verbatim>\<open>BucketStorageKeyForItemID\<close> takes the hexadecimal digest of the identifier, which
  has 64 characters for a hash of 32 bytes. When the longest prefix of the digest in the
  cache hits, the result is the key of the bucket found; otherwise it is the first
  \<^verbatim>\<open>BaseBucketBits/4\<close> characters of the digest. The function returns a key and nothing
  else, so it creates no bucket, and its result does not depend on the backend. On two
  packers with the same base bits whose caches both miss, the result is the same. The
  base bits are taken between 0 and 259, the range in which the digest has that many
  characters.
\<close>

theorem BucketStorageKeyForItemID_routing:
  assumes "length (Blake2b256Hash d itemID) = 32"
    and "0 \<le> BaseBucketBits s" and "BaseBucketBits s sdiv 4 \<le> 64"
  shows "length (EncodeToString (Blake2b256Hash d itemID)) = 64
    \<and> BucketStorageKeyForItemID d s itemID =
        (case LongestPrefix (bucketsCache s) (EncodeToString (Blake2b256Hash d itemID)) of
           Some (k, bucketRaw) \<Rightarrow> Inr (Key (objects s bucketRaw))
         | None \<Rightarrow>
             Inr (take (nat (BaseBucketBits s sdiv 4)) (EncodeToString (Blake2b256Hash d itemID))))
    \<and> (\<forall>v. BucketStorageKeyForItemID d (s\<lparr>BucketStorageView := v\<rparr>) itemID =
            BucketStorageKeyForItemID d s itemID)
    \<and> (\<forall>s'. LongestPrefix (bucketsCache s) (EncodeToString (Blake2b256Hash d itemID)) = None
            \<and> LongestPrefix (bucketsCache s') (EncodeToString (Blake2b256Hash d itemID)) = None
            \<and> BaseBucketBits s' = BaseBucketBits s
          \<longrightarrow> BucketStorageKeyForItemID d s' itemID = BucketStorageKeyForItemID d s itemID)"
proof -
  let ?hexVal = "EncodeToString (Blake2b256Hash d itemID)"
  have len: "length ?hexVal = 64"
    using assms(1) by (simp add: length_EncodeToString)
  have "0 \<le> BaseBucketBits s sdiv 4"
    using assms(2) by (simp add: signed_divide_int_def sgn_if pos_imp_zdiv_nonneg_iff)
  with assms(3) len
  have sl: "slice ?hexVal 0 (BaseBucketBits s sdiv 4) =
      Inr (take (nat (BaseBucketBits s sdiv 4)) ?hexVal)"
    by (simp add: slice_def)
  have route: "BucketStorageKeyForItemID d s itemID =
      (case LongestPrefix (bucketsCache s) ?hexVal of
         Some (k, bucketRaw) \<Rightarrow> Inr (Key (objects s bucketRaw))
       | None \<Rightarrow> Inr (take (nat (BaseBucketBits s sdiv 4)) ?hexVal))"
    using sl by (simp add: BucketStorageKeyForItemID_def Let_def split: option.splits)
  have frame: "BucketStorageKeyForItemID d (s\<lparr>BucketStorageView := v\<rparr>) itemID =
      BucketStorageKeyForItemID d s itemID" for v
    by (simp add: BucketStorageKeyForItemID_def Let_def split: option.splits sum.splits)
  have same: "BucketStorageKeyForItemID d s' itemID = BucketStorageKeyForItemID d s itemID"
    if "LongestPrefix (bucketsCache s) ?hexVal = None"
      and "LongestPrefix (bucketsCache s') ?hexVal = None"
      and "BaseBucketBits s' = BaseBucketBits s" for s'
    using that sl by (simp add: BucketStorageKeyForItemID_def Let_def)
  from len route frame same show ?thesis by blast
qed

theorem BucketStorageKeyForItemID_routing_witness:
  "length (Blake2b256Hash demoDeps ''alice'') = 32
   \<and> BaseBucketBits demoPacker = 8
   \<and> BucketStorageKeyForItemID demoDeps demoPacker ''alice'' = Inr ''05''
   \<and> BucketStorageKeyForItemID demoDeps (demoPacker\<lparr>BucketStorageView := None\<rparr>) ''alice'' = Inr ''05''"
proof -
  have h: "length (Blake2b256Hash demoDeps ''alice'') = 32"
    "0 \<le> BaseBucketBits demoPacker" "BaseBucketBits demoPacker sdiv 4 \<le> 64"
    by (simp_all add: demoDeps_fields demoPacker_fields signed_divide_int_def)
  have "nat (BaseBucketBits demoPacker sdiv 4) = 2"
    by (simp add: demoPacker_fields signed_divide_int_def)
  with BucketStorageKeyForItemID_routing [OF h] h(1) show ?thesis
    by (simp add: demoPacker_fields LongestPrefix_empty demo_hexVal)
qed

text \<open>Beyond that range the slice expression panics when the cache misses.\<close>

lemma BucketStorageKeyForItemID_out_of_range:
  assumes "length (Blake2b256Hash d itemID) = 32"
    and "LongestPrefix (bucketsCache s) (EncodeToString (Blake2b256Hash d itemID)) = None"
    and "64 < BaseBucketBits s sdiv 4"
  shows "BucketStorageKeyForItemID d s itemID = Inl (Panic ''slice bounds out of range'')"
  using assms by (simp add: BucketStorageKeyForItemID_def Let_def slice_def length_EncodeToString)

subsection \<open>The common beginning of the three item operations\<close>

lemma GetItem_fetch:
  "itemID \<noteq> [] \<Longrightarrow> GetItem d s itemID =
     (case fetch d s itemID of
        Failed e \<Rightarrow> (Inl e, s)
      | Absent bucketKey \<Rightarrow> (Inr None, s)
      | Present a s1 \<Rightarrow> (Inr (GetItem_locked s1 a itemID), s1))"
  by (simp add: GetItem_def fetch_def Let_def split: sum.splits option.splits prod.splits)

lemma DeleteItem_fetch:
  "itemID \<noteq> [] \<Longrightarrow> DeleteItem d s itemID =
     (case fetch d s itemID of
        Failed e \<Rightarrow> (Some e, s)
      | Absent bucketKey \<Rightarrow> (None, s)
      | Present a s1 \<Rightarrow> DeleteItem_locked d s1 a itemID)"
  by (simp add: DeleteItem_def fetch_def Let_def split: sum.splits option.splits prod.splits)

lemma PutItem_fetch:
  "ID item \<noteq> [] \<Longrightarrow> PutItem d s (Some item) =
     (case fetch d s (ID item) of
        Failed e \<Rightarrow> (Some e, s)
      | Absent bucketKey \<Rightarrow>
          PutItem_locked d
            (s\<lparr>objects := (objects s)(nextObject s := Bucket bucketKey None None),
               nextObject := Suc (nextObject s),
               bucketsCache := (bucketsCache s)(GetCacheKey bucketKey \<mapsto> nextObject s)\<rparr>)
            (nextObject s) item
      | Present a s1 \<Rightarrow> PutItem_locked d s1 a item)"
  by (simp add: PutItem_def fetch_def Let_def new_object_def split: sum.splits option.splits prod.splits)

lemma View_Get_EntryKey: "View_Get v k = Inr (Some e) \<Longrightarrow> EntryKey e = k"
  by (auto simp: View_Get_def split: option.splits)

lemma DecodeBucket_new:
  "DecodeBucket d s e = Inr (a, s1) \<Longrightarrow>
     a = nextObject s \<and> (\<exists>im bs. s1 = s\<lparr>objects := (objects s)(nextObject s := Bucket (EntryKey e) im bs),
                                        nextObject := Suc (nextObject s)\<rparr>)"
  by (auto simp: DecodeBucket_def new_object_def Let_def split: sum.splits prod.splits)

text \<open>The two lookups of the routing, and what \<open>fetch\<close> does after them.\<close>

lemma route_hit:
  "LongestPrefix (bucketsCache s) (EncodeToString (Blake2b256Hash d itemID)) = Some (k1, a1)
     \<Longrightarrow> BucketStorageKeyForItemID d s itemID = Inr (Key (objects s a1))"
  by (simp add: BucketStorageKeyForItemID_def)

lemma route_miss:
  assumes "LongestPrefix (bucketsCache s) (EncodeToString (Blake2b256Hash d itemID)) = None"
    and "BucketStorageKeyForItemID d s itemID = Inr bucketKey"
  shows "prefix bucketKey (EncodeToString (Blake2b256Hash d itemID))"
    and "GetCacheKey bucketKey = bucketKey"
    and "LongestPrefix (bucketsCache s) bucketKey = None"
proof -
  let ?hexVal = "EncodeToString (Blake2b256Hash d itemID)"
  from assms have "slice ?hexVal 0 (BaseBucketBits s sdiv 4) = Inr bucketKey"
    by (simp add: BucketStorageKeyForItemID_def Let_def split: sum.splits)
  then have "bucketKey = take (nat (BaseBucketBits s sdiv 4)) ?hexVal"
    by (simp add: slice_def split: if_splits)
  then show p: "prefix bucketKey ?hexVal"
    by (simp add: take_is_prefix)
  then have "set bucketKey \<subseteq> set ?hexVal"
    by (rule set_mono_prefix)
  with EncodeToString_no_slash [of "Blake2b256Hash d itemID"] show "GetCacheKey bucketKey = bucketKey"
    by (intro GetCacheKey_id) blast
  from assms(1) p show "LongestPrefix (bucketsCache s) bucketKey = None"
    by (rule LongestPrefix_prefix_None)
qed

lemma located_fetch: "located d s itemID a \<Longrightarrow> fetch d s itemID = Present a s"
  by (auto simp: located_def fetch_def route_hit)


lemma grown_fields:
  "objects (grown s c b) = (objects s)(nextObject s := b)"
  "nextObject (grown s c b) = Suc (nextObject s)"
  "bucketsCache (grown s c b) = (bucketsCache s)(c \<mapsto> nextObject s)"
  "BucketStorageView (grown s c b) = BucketStorageView s"
  "queuedBuckets (grown s c b) = queuedBuckets s"
  "queueMode (grown s c b) = queueMode s"
  "BaseBucketBits (grown s c b) = BaseBucketBits s"
  by (simp_all add: grown_def)

lemma located_grown:
  assumes route: "BucketStorageKeyForItemID d s itemID = Inr bucketKey"
    and miss: "LongestPrefix (bucketsCache s) (GetCacheKey bucketKey) = None"
    and key: "Key b = bucketKey"
  shows "located d (grown s (GetCacheKey bucketKey) b) itemID (nextObject s)"
proof (cases "LongestPrefix (bucketsCache s) (EncodeToString (Blake2b256Hash d itemID))")
  case None
  note facts = route_miss [OF None route]
  from None facts(1)
  have "LongestPrefix (bucketsCache (grown s bucketKey b)) (EncodeToString (Blake2b256Hash d itemID))
      = Some (bucketKey, nextObject s)"
    by (simp add: grown_fields LongestPrefix_insert_first)
  moreover have "LongestPrefix (bucketsCache (grown s bucketKey b))
      (GetCacheKey (Key (objects (grown s bucketKey b) (nextObject s)))) = Some (bucketKey, nextObject s)"
    by (simp add: grown_fields key facts(2) LongestPrefix_self)
  ultimately show ?thesis
    unfolding located_def facts(2) by blast
next
  case (Some r)
  obtain k1 a1 where r: "r = (k1, a1)" by (cases r)
  from Some r route have k: "Key (objects s a1) = bucketKey"
    by (simp add: route_hit)
  let ?s1 = "grown s (GetCacheKey bucketKey) b"
  from miss Some r
  have "LongestPrefix (bucketsCache ?s1) (EncodeToString (Blake2b256Hash d itemID)) = Some (k1, a1)"
    by (simp add: grown_fields LongestPrefix_insert_stable)
  moreover have "Key (objects ?s1 a1) = bucketKey"
    using k key by (simp add: grown_fields)
  moreover have "LongestPrefix (bucketsCache ?s1) (GetCacheKey bucketKey)
      = Some (GetCacheKey bucketKey, nextObject s)"
    by (simp add: grown_fields LongestPrefix_self)
  ultimately show ?thesis
    unfolding located_def by auto
qed

lemma fetch_Absent:
  assumes "fetch d s itemID = Absent bucketKey"
  shows "LongestPrefix (bucketsCache s) (GetCacheKey bucketKey) = None"
    and "Key b = bucketKey \<Longrightarrow> located d (grown s (GetCacheKey bucketKey) b) itemID (nextObject s)"
proof -
  from assms have route: "BucketStorageKeyForItemID d s itemID = Inr bucketKey"
    by (auto simp: fetch_def Let_def split: sum.splits option.splits prod.splits)
  with assms show miss: "LongestPrefix (bucketsCache s) (GetCacheKey bucketKey) = None"
    by (auto simp: fetch_def Let_def split: sum.splits option.splits prod.splits)
  show "located d (grown s (GetCacheKey bucketKey) b) itemID (nextObject s)" if "Key b = bucketKey"
    using route miss that by (rule located_grown)
qed

lemma fetch_Present:
  assumes "fetch d s itemID = Present a s1"
  shows "located d s1 itemID a"
    and "s1 = s \<or> (\<exists>c b. LongestPrefix (bucketsCache s) c = None \<and> a = nextObject s \<and> s1 = grown s c b)"
proof -
  from assms obtain bucketKey where route: "BucketStorageKeyForItemID d s itemID = Inr bucketKey"
    by (auto simp: fetch_def split: sum.splits)
  have "located d s1 itemID a \<and>
    (s1 = s \<or> (\<exists>c b. LongestPrefix (bucketsCache s) c = None \<and> a = nextObject s \<and> s1 = grown s c b))"
  proof (cases "LongestPrefix (bucketsCache s) (GetCacheKey bucketKey)")
    case (Some r)
    obtain k2 a2 where r: "r = (k2, a2)" by (cases r)
    with Some assms route have s1: "s1 = s" and a: "r = (k2, a)"
      by (auto simp: fetch_def)
    have "located d s itemID a"
    proof (cases "LongestPrefix (bucketsCache s) (EncodeToString (Blake2b256Hash d itemID))")
      case None
      from route_miss [OF None route] Some show ?thesis by simp
    next
      case hit: (Some r1)
      obtain k1 a1 where r1: "r1 = (k1, a1)" by (cases r1)
      from hit r1 route have "Key (objects s a1) = bucketKey" by (simp add: route_hit)
      with hit r1 Some a show ?thesis
        unfolding located_def by auto
    qed
    with s1 show ?thesis by simp
  next
    case None
    with assms route obtain e s0 where get: "View_Get (BucketStorageView s) bucketKey = Inr (Some e)"
      and d0: "DecodeBucket d s e = Inr (a, s0)"
      and s1: "s1 = s0\<lparr>bucketsCache := (bucketsCache s0)(GetCacheKey bucketKey \<mapsto> a)\<rparr>"
      by (auto simp: fetch_def Let_def split: sum.splits option.splits prod.splits)
    from DecodeBucket_new [OF d0] View_Get_EntryKey [OF get] obtain im bs
      where a: "a = nextObject s"
        and s0: "s0 = s\<lparr>objects := (objects s)(nextObject s := Bucket bucketKey im bs),
                        nextObject := Suc (nextObject s)\<rparr>"
      by auto
    from s1 s0 a have g: "s1 = grown s (GetCacheKey bucketKey) (Bucket bucketKey im bs)"
      by (simp add: grown_def)
    have "located d (grown s (GetCacheKey bucketKey) (Bucket bucketKey im bs)) itemID (nextObject s)"
      using route None by (rule located_grown) simp
    with g a None show ?thesis by blast
  qed
  then show "located d s1 itemID a"
    and "s1 = s \<or> (\<exists>c b. LongestPrefix (bucketsCache s) c = None \<and> a = nextObject s \<and> s1 = grown s c b)"
    by simp_all
qed

subsection \<open>What the operations keep\<close>

lemma storeBucket_keeps:
  "objects (snd (storeBucket d s a)) = objects s"
  "bucketsCache (snd (storeBucket d s a)) = bucketsCache s"
  "nextObject (snd (storeBucket d s a)) = nextObject s"
  "queueMode (snd (storeBucket d s a)) = queueMode s"
  by (simp_all add: storeBucket_def split: sum.splits option.splits prod.splits)

lemma PutItem_locked_keeps:
  "bucketsCache (snd (PutItem_locked d s a item)) = bucketsCache s"
  "nextObject (snd (PutItem_locked d s a item)) = nextObject s"
  "Key (objects (snd (PutItem_locked d s a item)) a') = Key (objects s a')"
  "i \<noteq> ID item \<Longrightarrow>
     index_map (ItemMap (objects (snd (PutItem_locked d s a item)) a')) i =
     index_map (ItemMap (objects s a')) i"
  by (simp_all add: PutItem_locked_def upsert_def storeBucket_keeps Let_def index_map_def
      split: option.splits)

lemma PutItem_locked_item:
  "ID item \<noteq> [] \<Longrightarrow>
     index_map (ItemMap (objects (snd (PutItem_locked d s a item)) a)) (ID item) = Some (Message item)"
  by (simp add: PutItem_locked_def upsert_def storeBucket_keeps Let_def index_map_def)

lemma DeleteItem_locked_keeps:
  "bucketsCache (snd (DeleteItem_locked d s a i)) = bucketsCache s"
  "nextObject (snd (DeleteItem_locked d s a i)) = nextObject s"
  "Key (objects (snd (DeleteItem_locked d s a i)) a') = Key (objects s a')"
  "i' \<noteq> i \<Longrightarrow>
     index_map (ItemMap (objects (snd (DeleteItem_locked d s a i)) a')) i' =
     index_map (ItemMap (objects s a')) i'"
  by (simp_all add: DeleteItem_locked_def storeBucket_keeps Let_def index_map_def delete_map_def
      split: option.splits)

lemma located_cong:
  "bucketsCache s' = bucketsCache s \<Longrightarrow> (\<And>a. Key (objects s' a) = Key (objects s a))
     \<Longrightarrow> located d s' itemID a = located d s itemID a"
  by (simp add: located_def)

lemma located_in_cache: "located d s itemID a \<Longrightarrow> a \<in> ran (bucketsCache s)"
  by (auto simp: located_def LongestPrefix_Some_iff ran_def)

lemma cached_item_GetItem:
  assumes "ID item \<noteq> []" and "cached_item d s item"
  shows "GetItem d s (ID item) = (Inr (Some item), s)"
proof -
  from assms(2) obtain a where loc: "located d s (ID item) a"
    and it: "index_map (ItemMap (objects s a)) (ID item) = Some (Message item)"
    by (auto simp: cached_item_def)
  from it have "\<not> len_is_0 (ItemMap (objects s a))"
    by (auto simp: index_map_def len_is_0_def split: option.splits)
  with it have "GetItem_locked s a (ID item) = Some item"
    by (simp add: GetItem_locked_def)
  with assms(1) located_fetch [OF loc] show ?thesis
    by (simp add: GetItem_fetch)
qed

lemma PutItem_cached_item:
  assumes "ID item \<noteq> []" and "\<And>e. fetch d s (ID item) \<noteq> Failed e"
  shows "cached_item d (snd (PutItem d s (Some item))) item"
proof -
  have main: "cached_item d (snd (PutItem_locked d s1 a item)) item" if "located d s1 (ID item) a" for s1 a
  proof -
    have "located d (snd (PutItem_locked d s1 a item)) (ID item) a = located d s1 (ID item) a"
      by (rule located_cong) (simp_all add: PutItem_locked_keeps)
    with that have "located d (snd (PutItem_locked d s1 a item)) (ID item) a"
      by simp
    with assms(1) show ?thesis
      unfolding cached_item_def using PutItem_locked_item by blast
  qed
  show ?thesis
  proof (cases "fetch d s (ID item)")
    case (Failed e)
    with assms(2) [of e] show ?thesis by simp
  next
    case (Absent bucketKey)
    have "located d (grown s (GetCacheKey bucketKey) (Bucket bucketKey None None)) (ID item) (nextObject s)"
      using fetch_Absent(2) [OF Absent] by simp
    from main [OF this] assms(1) Absent show ?thesis
      by (simp add: PutItem_fetch grown_def)
  next
    case (Present a s1)
    from main [OF fetch_Present(1) [OF Present]] assms(1) Present show ?thesis
      by (simp add: PutItem_fetch)
  qed
qed

lemma PutItem_reached:
  assumes "fst (PutItem d s item0) = None
           \<or> fst (PutItem d s item0) = Some (Wrapf ''failed to persist packed storage entry: '' e)"
  shows "\<exists>item. item0 = Some item \<and> ID item \<noteq> [] \<and> (\<forall>e. fetch d s (ID item) \<noteq> Failed e)"
proof -
  from assms obtain item where item: "item0 = Some item" "ID item \<noteq> []"
    by (auto simp: PutItem_def split: option.splits if_splits)
  have "fetch d s (ID item) \<noteq> Failed e'" for e'
  proof
    assume f: "fetch d s (ID item) = Failed e'"
    then have "e' = Panic ''slice bounds out of range''
        \<or> (\<exists>x. e' = Wrapf ''failed to read packed storage value: '' x)
        \<or> (\<exists>x. e' = Wrapf ''error decoding existing storage entry for upsert: '' x)"
      by (auto simp: fetch_def BucketStorageKeyForItemID_def slice_def Let_def
          split: sum.splits option.splits prod.splits if_splits)
    moreover from f item have "fst (PutItem d s item0) = Some e'"
      by (simp add: PutItem_fetch)
    ultimately show False using assms by auto
  qed
  with item show ?thesis by blast
qed


lemma FlushQueue_Range_keeps:
  "objects (snd (FlushQueue_Range d q (err, s))) = objects s
   \<and> bucketsCache (snd (FlushQueue_Range d q (err, s))) = bucketsCache s
   \<and> nextObject (snd (FlushQueue_Range d q (err, s))) = nextObject s
   \<and> queueMode (snd (FlushQueue_Range d q (err, s))) = queueMode s"
proof (induction q arbitrary: err s)
  case Nil
  then show ?case by simp
next
  case (Cons kv q)
  obtain key val where kv: "kv = (key, val)" by (cases kv)
  obtain lErr s1 where st: "storeBucket d s val = (lErr, s1)" by (cases "storeBucket d s val")
  from storeBucket_keeps [of d s val] st
  have "objects s1 = objects s" "bucketsCache s1 = bucketsCache s" "nextObject s1 = nextObject s"
    "queueMode s1 = queueMode s"
    by simp_all
  with Cons.IH [of _ "s1\<lparr>queuedBuckets := AList.delete key (queuedBuckets s1)\<rparr>"] kv st
  show ?case by simp
qed

lemma FlushQueue_keeps:
  "objects (snd (FlushQueue d s)) = objects s"
  "bucketsCache (snd (FlushQueue d s)) = bucketsCache s"
  "nextObject (snd (FlushQueue d s)) = nextObject s"
  using FlushQueue_Range_keeps [of d "queuedBuckets s" "[]" s]
  by (auto simp: FlushQueue_def split: prod.splits)

lemma frame_same:
  assumes "cache_fresh s" and "bucketsCache s' = bucketsCache s" and "nextObject s' = nextObject s"
    and "\<And>a. Key (objects s' a) = Key (objects s a)"
    and "\<And>a. index_map (ItemMap (objects s' a)) itemID = index_map (ItemMap (objects s a)) itemID"
  shows "frame itemID s s'"
  using assms by (simp add: frame_def cache_fresh_def)

lemma frame_trans:
  assumes "frame itemID s s1" and "frame itemID s1 s2"
  shows "frame itemID s s2"
proof -
  from assms have le: "nextObject s \<le> nextObject s1" "nextObject s1 \<le> nextObject s2"
    by (simp_all add: frame_def)
  have "Key (objects s2 a) = Key (objects s a)
      \<and> index_map (ItemMap (objects s2 a)) itemID = index_map (ItemMap (objects s a)) itemID"
    if "a < nextObject s" for a
  proof -
    from that le have "a < nextObject s1" by simp
    with assms that show ?thesis by (simp add: frame_def)
  qed
  moreover have "LongestPrefix (bucketsCache s2) x = Some r"
    if "LongestPrefix (bucketsCache s) x = Some r" for x r
    using assms that unfolding frame_def by blast
  moreover from assms(2) have "cache_fresh s2" by (simp add: frame_def)
  ultimately show ?thesis
    using le by (simp add: frame_def)
qed

lemma frame_fresh: "frame itemID s s' \<Longrightarrow> cache_fresh s'"
  by (simp add: frame_def)

lemma frame_grown:
  assumes "cache_fresh s" and "LongestPrefix (bucketsCache s) c = None"
  shows "frame itemID s (grown s c b)"
proof -
  from assms(2) have "bucketsCache s c = None"
    by (simp add: LongestPrefix_None_iff)
  then have "ran (bucketsCache (grown s c b)) = insert (nextObject s) (ran (bucketsCache s))"
    by (simp add: grown_fields)
  with assms(1) have "cache_fresh (grown s c b)"
    by (auto simp: cache_fresh_def grown_fields)
  with assms(2) show ?thesis
    by (simp add: frame_def grown_fields LongestPrefix_insert_stable)
qed

lemma frame_fetch:
  assumes "cache_fresh s" and "fetch d s i = Present a s1"
  shows "frame itemID s s1"
  using fetch_Present(2) [OF assms(2)] assms(1)
  by (auto intro: frame_grown frame_same)

lemma frame_PutItem_locked:
  "cache_fresh s \<Longrightarrow> ID item \<noteq> itemID \<Longrightarrow> frame itemID s (snd (PutItem_locked d s a item))"
  by (rule frame_same) (simp_all add: PutItem_locked_keeps)

lemma frame_DeleteItem_locked:
  "cache_fresh s \<Longrightarrow> i \<noteq> itemID \<Longrightarrow> frame itemID s (snd (DeleteItem_locked d s a i))"
  by (rule frame_same) (simp_all add: DeleteItem_locked_keeps)

lemma frame_PutItem:
  assumes "cache_fresh s" and "ID item \<noteq> itemID"
  shows "frame itemID s (snd (PutItem d s (Some item)))"
proof (cases "ID item = []")
  case True
  with assms(1) show ?thesis by (simp add: PutItem_def frame_same)
next
  case False
  show ?thesis
  proof (cases "fetch d s (ID item)")
    case (Failed e)
    with False assms(1) show ?thesis by (simp add: PutItem_fetch frame_same)
  next
    case (Absent bucketKey)
    let ?s1 = "grown s (GetCacheKey bucketKey) (Bucket bucketKey None None)"
    have 1: "frame itemID s ?s1"
      using assms(1) fetch_Absent(1) [OF Absent] by (rule frame_grown)
    have "frame itemID ?s1 (snd (PutItem_locked d ?s1 (nextObject s) item))"
      using frame_fresh [OF 1] assms(2) by (rule frame_PutItem_locked)
    with 1 have "frame itemID s (snd (PutItem_locked d ?s1 (nextObject s) item))"
      by (rule frame_trans)
    with False Absent show ?thesis by (simp add: PutItem_fetch grown_def)
  next
    case (Present a s1)
    have 1: "frame itemID s s1"
      using assms(1) Present by (rule frame_fetch)
    have "frame itemID s1 (snd (PutItem_locked d s1 a item))"
      using frame_fresh [OF 1] assms(2) by (rule frame_PutItem_locked)
    with 1 have "frame itemID s (snd (PutItem_locked d s1 a item))"
      by (rule frame_trans)
    with False Present show ?thesis by (simp add: PutItem_fetch)
  qed
qed

lemma frame_DeleteItem:
  assumes "cache_fresh s" and "i \<noteq> itemID"
  shows "frame itemID s (snd (DeleteItem d s i))"
proof (cases "i = []")
  case True
  with assms(1) show ?thesis by (simp add: DeleteItem_def frame_same)
next
  case False
  show ?thesis
  proof (cases "fetch d s i")
    case (Failed e)
    with False assms(1) show ?thesis by (simp add: DeleteItem_fetch frame_same)
  next
    case (Absent bucketKey)
    with False assms(1) show ?thesis by (simp add: DeleteItem_fetch frame_same)
  next
    case (Present a s1)
    have 1: "frame itemID s s1"
      using assms(1) Present by (rule frame_fetch)
    have "frame itemID s1 (snd (DeleteItem_locked d s1 a i))"
      using frame_fresh [OF 1] assms(2) by (rule frame_DeleteItem_locked)
    with 1 have "frame itemID s (snd (DeleteItem_locked d s1 a i))"
      by (rule frame_trans)
    with False Present show ?thesis by (simp add: DeleteItem_fetch)
  qed
qed

lemma frame_GetItem:
  assumes "cache_fresh s"
  shows "frame itemID s (snd (GetItem d s i))"
proof (cases "i = []")
  case True
  with assms(1) show ?thesis by (simp add: GetItem_def frame_same)
next
  case False
  show ?thesis
  proof (cases "fetch d s i")
    case (Failed e)
    with False assms(1) show ?thesis by (simp add: GetItem_fetch frame_same)
  next
    case (Absent bucketKey)
    with False assms(1) show ?thesis by (simp add: GetItem_fetch frame_same)
  next
    case (Present a s1)
    have "frame itemID s s1"
      using assms(1) Present by (rule frame_fetch)
    with False Present show ?thesis by (simp add: GetItem_fetch)
  qed
qed

lemma frame_step:
  assumes "cache_fresh s" and "\<not> writes itemID c"
  shows "frame itemID s (step d s c)"
proof (cases c)
  case (CallPutItem item0)
  show ?thesis
  proof (cases item0)
    case None
    with CallPutItem assms(1) show ?thesis by (simp add: PutItem_def frame_same)
  next
    case (Some item)
    with CallPutItem assms show ?thesis by (simp add: frame_PutItem)
  qed
next
  case (CallDeleteItem i)
  with assms show ?thesis by (simp add: frame_DeleteItem)
next
  case (CallGetItem i)
  with assms show ?thesis by (simp add: frame_GetItem)
next
  case (CallSetQueueMode enabled)
  with assms(1) show ?thesis by (simp add: SetQueueMode_def frame_same)
next
  case CallFlushQueue
  with assms(1) show ?thesis by (simp add: frame_same FlushQueue_keeps)
qed

lemma frame_cached_item:
  assumes "cache_fresh s" and "cached_item d s item" and "frame (ID item) s s'"
  shows "cached_item d s' item"
proof -
  from assms(2) obtain a k1 a1 k2
    where h1: "LongestPrefix (bucketsCache s) (EncodeToString (Blake2b256Hash d (ID item))) = Some (k1, a1)"
      and h2: "LongestPrefix (bucketsCache s) (GetCacheKey (Key (objects s a1))) = Some (k2, a)"
      and it: "index_map (ItemMap (objects s a)) (ID item) = Some (Message item)"
    by (auto simp: cached_item_def located_def)
  from h1 h2 assms(1) have lt: "a1 < nextObject s" "a < nextObject s"
    by (auto simp: LongestPrefix_Some_iff cache_fresh_def ran_def)
  from assms(3) lt have keys: "Key (objects s' a1) = Key (objects s a1)"
    and items: "index_map (ItemMap (objects s' a)) (ID item) = index_map (ItemMap (objects s a)) (ID item)"
    by (simp_all add: frame_def)
  from assms(3) h1 h2
  have "LongestPrefix (bucketsCache s') (EncodeToString (Blake2b256Hash d (ID item))) = Some (k1, a1)"
    and "LongestPrefix (bucketsCache s') (GetCacheKey (Key (objects s a1))) = Some (k2, a)"
    by (simp_all add: frame_def)
  with keys items it show ?thesis
    unfolding cached_item_def located_def by auto
qed

lemma calls_cached_item:
  assumes "cache_fresh s" and "cached_item d s item" and "\<forall>c\<in>set calls. \<not> writes (ID item) c"
  shows "cached_item d (foldl (step d) s calls) item"
  using assms
proof (induction calls arbitrary: s)
  case Nil
  then show ?case by simp
next
  case (Cons c calls)
  from Cons.prems have f: "frame (ID item) s (step d s c)"
    by (simp add: frame_step)
  with Cons.prems have "cached_item d (step d s c) item"
    by (auto intro: frame_cached_item)
  with Cons.IH [of "step d s c"] frame_fresh [OF f] Cons.prems(3) show ?case
    by simp
qed

lemma cache_fresh_step: "cache_fresh s \<Longrightarrow> cache_fresh (step d s c)"
proof -
  assume fresh: "cache_fresh s"
  obtain i where "\<not> writes i c"
  proof (cases c)
    case (CallPutItem item0)
    then have "\<not> writes (case item0 of None \<Rightarrow> [] | Some item \<Rightarrow> ID item @ ''x'') c"
      by (cases item0) simp_all
    then show ?thesis by (rule that)
  next
    case (CallDeleteItem i)
    then have "\<not> writes (i @ ''x'') c" by simp
    then show ?thesis by (rule that)
  qed (auto intro: that [of "[]"])
  with fresh have "frame i s (step d s c)" by (rule frame_step)
  then show ?thesis by (rule frame_fresh)
qed

subsection \<open>Runs of the instance\<close>

lemma brokenPacker_fields:
  "BucketStorageView brokenPacker =
     Some (demoView\<lparr>putFault := (\<lambda>_. Some (Errorf ''i/o timeout''))\<rparr>)"
  "BaseBucketBits brokenPacker = 8"
  "bucketsCache brokenPacker = Map.empty"
  "queueMode brokenPacker = 0"
  "queuedBuckets brokenPacker = []"
  "objects brokenPacker a = Bucket [] None None"
  "nextObject brokenPacker = 0"
  by (simp_all add: brokenPacker_def demoPacker_def)

lemma route_alice:
  "bucketsCache s = Map.empty \<Longrightarrow> BaseBucketBits s = 8 \<Longrightarrow>
     BucketStorageKeyForItemID demoDeps s ''alice'' = Inr ''05''"
  by (simp add: BucketStorageKeyForItemID_def demo_hexVal LongestPrefix_empty slice_def
      signed_divide_int_def)

lemma PutItem_demo:
  "PutItem demoDeps demoPacker (Some alice) =
     (None,
      demoPacker\<lparr>bucketsCache := [''05'' \<mapsto> 0],
                 objects := (objects demoPacker)
                   (0 := Bucket ''05'' (Some [''alice'' \<mapsto> Some (''t'', [7])]) None),
                 nextObject := 1,
                 BucketStorageView := Some (demoView\<lparr>entries := [''05'' \<mapsto> [1, 2]]\<rparr>)\<rparr>)"
  by (simp add: PutItem_def alice_def route_alice GetCacheKey_def LongestPrefix_empty
      View_Get_def demoPacker_fields demoView_fields new_object_def PutItem_locked_def upsert_def
      storeBucket_def demoDeps_fields View_Put_def)

lemma PutItem_broken:
  "PutItem demoDeps brokenPacker (Some alice) =
     (Some (Wrapf ''failed to persist packed storage entry: '' (Errorf ''i/o timeout'')),
      brokenPacker\<lparr>bucketsCache := [''05'' \<mapsto> 0],
                   objects := (objects brokenPacker)
                     (0 := Bucket ''05'' (Some [''alice'' \<mapsto> Some (''t'', [7])]) None),
                   nextObject := 1\<rparr>)"
  by (simp add: PutItem_def alice_def route_alice GetCacheKey_def LongestPrefix_empty
      View_Get_def brokenPacker_fields demoView_fields new_object_def PutItem_locked_def upsert_def
      storeBucket_def demoDeps_fields View_Put_def)

lemma afterAlice_fields:
  "BucketStorageView afterAlice = Some (demoView\<lparr>entries := [''05'' \<mapsto> [1, 2]]\<rparr>)"
  "bucketsCache afterAlice = [''05'' \<mapsto> 0]"
  "queueMode afterAlice = 0"
  "queuedBuckets afterAlice = []"
  "objects afterAlice 0 = Bucket ''05'' (Some [''alice'' \<mapsto> Some (''t'', [7])]) None"
  "nextObject afterAlice = 1"
  by (simp_all add: afterAlice_def PutItem_demo demoPacker_fields)

lemma located_alice_05:
  assumes "bucketsCache s = [''05'' \<mapsto> 0]" and "Key (objects s 0) = ''05''"
  shows "located demoDeps s ''alice'' 0"
proof -
  have "LongestPrefix (bucketsCache s) (EncodeToString (Blake2b256Hash demoDeps ''alice''))
      = Some (''05'', 0)"
    unfolding demo_hexVal assms(1)
    by (rule LongestPrefix_insert_first) (simp_all add: LongestPrefix_empty)
  moreover have "LongestPrefix (bucketsCache s) (GetCacheKey (Key (objects s 0))) = Some (''05'', 0)"
    by (simp add: assms GetCacheKey_def LongestPrefix_self)
  ultimately show ?thesis
    unfolding located_def by blast
qed

lemma GetItem_alice_05:
  assumes "bucketsCache s = [''05'' \<mapsto> 0]" and "Key (objects s 0) = ''05''"
  shows "GetItem demoDeps s ''alice'' = (Inr (GetItem_locked s 0 ''alice''), s)"
  using located_fetch [OF located_alice_05 [OF assms]] by (simp add: GetItem_fetch)

text \<open>
  The packer \<open>flakyPacker\<close> is the packer after the put of \<open>alice\<close>, with a backend that
  has begun to fail every put.
\<close>

lemma flakyPacker_fields:
  "BucketStorageView flakyPacker =
     Some (demoView\<lparr>entries := [''05'' \<mapsto> [1, 2]],
                    putFault := (\<lambda>_. Some (Errorf ''i/o timeout''))\<rparr>)"
  "bucketsCache flakyPacker = [''05'' \<mapsto> 0]"
  "queueMode flakyPacker = 0"
  "queuedBuckets flakyPacker = []"
  "objects flakyPacker 0 = Bucket ''05'' (Some [''alice'' \<mapsto> Some (''t'', [7])]) None"
  by (simp_all add: flakyPacker_def afterAlice_fields)

lemma PutItem_flaky:
  "PutItem demoDeps flakyPacker (Some alice2) =
     (Some (Wrapf ''failed to persist packed storage entry: '' (Errorf ''i/o timeout'')),
      flakyPacker\<lparr>objects := (objects flakyPacker)
         (0 := Bucket ''05'' (Some [''alice'' \<mapsto> Some (''t'', [8])]) None)\<rparr>)"
proof -
  have "located demoDeps flakyPacker ''alice'' 0"
    by (rule located_alice_05) (simp_all add: flakyPacker_fields)
  then have "fetch demoDeps flakyPacker (ID alice2) = Present 0 flakyPacker"
    by (simp add: alice2_def located_fetch)
  moreover have "ID alice2 \<noteq> []" by (simp add: alice2_def)
  ultimately have "PutItem demoDeps flakyPacker (Some alice2) =
      PutItem_locked demoDeps flakyPacker 0 alice2"
    by (simp add: PutItem_fetch)
  then show ?thesis
    by (simp add: PutItem_locked_def upsert_def alice2_def flakyPacker_fields storeBucket_def
        demoDeps_fields View_Put_def demoView_fields)
qed

lemma DeleteItem_flaky:
  "DeleteItem demoDeps flakyPacker ''alice'' =
     (Some (Wrapf ''failed to persist packed storage entry: '' (Errorf ''i/o timeout'')),
      flakyPacker\<lparr>objects := (objects flakyPacker)
         (0 := Bucket ''05'' (Some Map.empty) None)\<rparr>)"
proof -
  have "located demoDeps flakyPacker ''alice'' 0"
    by (rule located_alice_05) (simp_all add: flakyPacker_fields)
  then have "fetch demoDeps flakyPacker ''alice'' = Present 0 flakyPacker"
    by (rule located_fetch)
  then have "DeleteItem demoDeps flakyPacker ''alice'' =
      DeleteItem_locked demoDeps flakyPacker 0 ''alice''"
    by (simp add: DeleteItem_fetch)
  then show ?thesis
    by (simp add: DeleteItem_locked_def flakyPacker_fields len_is_0_def index_map_def
        delete_map_def storeBucket_def demoDeps_fields View_Put_def demoView_fields)
qed

subsection \<open>An item that was put is the item that is got\<close>

text \<open>
  After a \<^verbatim>\<open>PutItem\<close> that succeeded, and after any further calls of \<^verbatim>\<open>PutItem\<close>,
  \<^verbatim>\<open>DeleteItem\<close>, \<^verbatim>\<open>GetItem\<close>, \<^verbatim>\<open>SetQueueMode\<close> and \<^verbatim>\<open>FlushQueue\<close>, failed or not, of
  which none puts or deletes the identifier of the item, \<^verbatim>\<open>GetItem\<close> returns the item
  as it was put. The packer the first call starts from has only allocated objects in its
  cache, as every packer that \<^verbatim>\<open>NewStoragePackerV2\<close> returned and the calls changed has.
\<close>

lemma PutItem_GetItem_roundtrip:
  assumes "cache_fresh s"
    and "fst (PutItem d s (Some item)) = None"
    and "\<forall>c\<in>set calls. \<not> writes (ID item) c"
  shows "fst (GetItem d (foldl (step d) (snd (PutItem d s (Some item))) calls) (ID item))
           = Inr (Some item)"
proof -
  from assms(2) PutItem_reached [of d s "Some item"]
  have ok: "ID item \<noteq> []" "\<And>e. fetch d s (ID item) \<noteq> Failed e"
    by auto
  then have "cached_item d (snd (PutItem d s (Some item))) item"
    by (rule PutItem_cached_item)
  moreover from assms(1) have "cache_fresh (step d s (CallPutItem (Some item)))"
    by (rule cache_fresh_step)
  ultimately have "cached_item d (foldl (step d) (snd (PutItem d s (Some item))) calls) item"
    using assms(3) by (intro calls_cached_item) simp_all
  with ok(1) show ?thesis
    by (simp add: cached_item_GetItem)
qed

lemma PutItem_GetItem_roundtrip_demo:
  "cache_fresh demoPacker
   \<and> fst (PutItem demoDeps demoPacker (Some alice)) = None
   \<and> fst (GetItem demoDeps
        (foldl (step demoDeps) (snd (PutItem demoDeps demoPacker (Some alice)))
           [CallGetItem ''bob'', CallPutItem (Some bob), CallDeleteItem ''bob'',
            CallSetQueueMode True, CallPutItem (Some bob), CallFlushQueue])
        ''alice'') = Inr (Some alice)"
proof -
  have h1: "cache_fresh demoPacker"
    by (simp add: cache_fresh_def demoPacker_fields)
  have h2: "fst (PutItem demoDeps demoPacker (Some alice)) = None"
    by (simp add: PutItem_demo)
  have h3: "\<forall>c\<in>set [CallGetItem ''bob'', CallPutItem (Some bob), CallDeleteItem ''bob'',
            CallSetQueueMode True, CallPutItem (Some bob), CallFlushQueue]. \<not> writes (ID alice) c"
    by (simp add: alice_def bob_def)
  have "ID alice = ''alice''" by (simp add: alice_def)
  with PutItem_GetItem_roundtrip [OF h1 h2 h3] h1 h2 show ?thesis
    by simp
qed

text \<open>
  C5, at a failing input. \<^verbatim>\<open>PutItem\<close> and \<^verbatim>\<open>DeleteItem\<close> change the bucket in the cache
  before they call the backend, and undo nothing when the put fails. The item \<open>alice\<close>
  is put with the payload 7, and the put succeeds; the backend then fails every put.
  A \<^verbatim>\<open>PutItem\<close> of \<open>alice\<close> with the payload 8 returns the error of the backend and leaves
  the backend as it was, and the \<^verbatim>\<open>GetItem\<close> that follows returns the payload 8, which
  was not written. In place of it, a \<^verbatim>\<open>DeleteItem\<close> of \<open>alice\<close> returns the error and
  leaves the backend as it was, and the \<^verbatim>\<open>GetItem\<close> that follows returns no item, though
  the item was not deleted.
\<close>

theorem PutItem_GetItem_failed_write_between:
  "fst (PutItem demoDeps demoPacker (Some alice)) = None
   \<and> fst (GetItem demoDeps afterAlice ''alice'') = Inr (Some alice)
   \<and> View_Get (BucketStorageView afterAlice) ''05'' = Inr (Some (StorageEntry ''05'' [1, 2]))
   \<and> flakyPacker =
       afterAlice\<lparr>BucketStorageView :=
                    map_option (\<lambda>v. v\<lparr>putFault := (\<lambda>_. Some (Errorf ''i/o timeout''))\<rparr>)
                      (BucketStorageView afterAlice)\<rparr>
   \<and> fst (PutItem demoDeps flakyPacker (Some alice2)) =
       Some (Wrapf ''failed to persist packed storage entry: '' (Errorf ''i/o timeout''))
   \<and> BucketStorageView (snd (PutItem demoDeps flakyPacker (Some alice2))) =
       BucketStorageView flakyPacker
   \<and> fst (GetItem demoDeps (snd (PutItem demoDeps flakyPacker (Some alice2))) ''alice'') =
       Inr (Some alice2)
   \<and> alice2 \<noteq> alice
   \<and> fst (DeleteItem demoDeps flakyPacker ''alice'') =
       Some (Wrapf ''failed to persist packed storage entry: '' (Errorf ''i/o timeout''))
   \<and> BucketStorageView (snd (DeleteItem demoDeps flakyPacker ''alice'')) =
       BucketStorageView flakyPacker
   \<and> fst (GetItem demoDeps (snd (DeleteItem demoDeps flakyPacker ''alice'')) ''alice'') = Inr None"
proof -
  let ?put = "flakyPacker\<lparr>objects := (objects flakyPacker)
         (0 := Bucket ''05'' (Some [''alice'' \<mapsto> Some (''t'', [8])]) None)\<rparr>"
  let ?del = "flakyPacker\<lparr>objects := (objects flakyPacker)
         (0 := Bucket ''05'' (Some Map.empty) None)\<rparr>"
  have "fst (GetItem demoDeps afterAlice ''alice'') = Inr (Some alice)"
    using GetItem_alice_05 [of afterAlice]
    by (simp add: afterAlice_fields GetItem_locked_def len_is_0_def index_map_def alice_def)
  moreover have "fst (GetItem demoDeps ?put ''alice'') = Inr (Some alice2)"
    using GetItem_alice_05 [of ?put]
    by (simp add: flakyPacker_fields GetItem_locked_def len_is_0_def index_map_def alice2_def)
  moreover have "fst (GetItem demoDeps ?del ''alice'') = Inr None"
    using GetItem_alice_05 [of ?del]
    by (simp add: flakyPacker_fields GetItem_locked_def len_is_0_def)
  moreover have "alice2 \<noteq> alice"
    by (simp add: alice_def alice2_def)
  moreover have "View_Get (BucketStorageView afterAlice) ''05'' =
      Inr (Some (StorageEntry ''05'' [1, 2]))"
    by (simp add: afterAlice_fields View_Get_def demoView_fields)
  moreover note flakyPacker_def
  ultimately show ?thesis
    by (simp add: PutItem_demo PutItem_flaky DeleteItem_flaky flakyPacker_fields)
qed

subsection \<open>A put that fails in the backend\<close>

lemma View_Put_error: "View_Put v e = (Some err, v') \<Longrightarrow> v' = v"
  by (auto simp: View_Put_def split: option.splits if_splits)

lemma storeBucket_error: "fst (storeBucket d s a) = Some err \<Longrightarrow> snd (storeBucket d s a) = s"
  by (auto simp: storeBucket_def split: if_splits sum.splits prod.splits option.splits
      dest: View_Put_error)

lemma fetch_view:
  "fetch d s i = Present a s1 \<Longrightarrow>
     BucketStorageView s1 = BucketStorageView s \<and> queuedBuckets s1 = queuedBuckets s
     \<and> queueMode s1 = queueMode s"
  by (drule fetch_Present(2)) (auto simp: grown_fields)

lemma PutItem_locked_error:
  "fst (PutItem_locked d s a item) = Some err \<Longrightarrow>
     BucketStorageView (snd (PutItem_locked d s a item)) = BucketStorageView s
     \<and> queuedBuckets (snd (PutItem_locked d s a item)) = queuedBuckets s"
  by (auto simp: PutItem_locked_def upsert_def Let_def split: if_splits dest: storeBucket_error)

lemma PutItem_error_view:
  assumes "fst (PutItem d s item0) = Some err"
  shows "BucketStorageView (snd (PutItem d s item0)) = BucketStorageView s"
proof (cases "\<exists>item. item0 = Some item \<and> ID item \<noteq> []")
  case False
  then show ?thesis by (auto simp: PutItem_def split: option.splits)
next
  case True
  then obtain item where item: "item0 = Some item" "ID item \<noteq> []" by blast
  show ?thesis
  proof (cases "fetch d s (ID item)")
    case (Failed e)
    with item show ?thesis by (simp add: PutItem_fetch)
  next
    case (Absent bucketKey)
    with item assms PutItem_locked_error [of d "grown s (GetCacheKey bucketKey) (Bucket bucketKey None None)" "nextObject s" item err]
    show ?thesis by (simp add: PutItem_fetch grown_def)
  next
    case (Present a s1)
    with item assms PutItem_locked_error [of d s1 a item err] fetch_view [OF Present]
    show ?thesis by (simp add: PutItem_fetch)
  qed
qed

text \<open>
  Whenever \<^verbatim>\<open>PutItem\<close> returns the error of a backend put, the backend is as it was, and
  the \<^verbatim>\<open>GetItem\<close> that follows returns the item that was not stored. A backend that
  fails every put makes every \<^verbatim>\<open>PutItem\<close> that reaches it return that error.
\<close>

lemma PutItem_failed_put_keeps_item:
  assumes "fst (PutItem d s (Some item)) = Some (Wrapf ''failed to persist packed storage entry: '' e)"
  shows "fst (GetItem d (snd (PutItem d s (Some item))) (ID item)) = Inr (Some item)
         \<and> BucketStorageView (snd (PutItem d s (Some item))) = BucketStorageView s"
proof -
  from assms PutItem_reached [of d s "Some item" e]
  have ok: "ID item \<noteq> []" "\<And>e. fetch d s (ID item) \<noteq> Failed e"
    by auto
  then have "cached_item d (snd (PutItem d s (Some item))) item"
    by (rule PutItem_cached_item)
  with ok(1) have "fst (GetItem d (snd (PutItem d s (Some item))) (ID item)) = Inr (Some item)"
    by (simp add: cached_item_GetItem)
  with PutItem_error_view [OF assms] show ?thesis by simp
qed

lemma storeBucket_put_fault:
  assumes "queueMode s \<noteq> 1" and "Marshal d (objects s a) = Inr m" and "Compress d m = Inr c"
    and "BucketStorageView s = Some v" and "putFault v (Key (objects s a)) = Some e0"
  shows "storeBucket d s a = (Some (Wrapf ''failed to persist packed storage entry: '' e0), s)"
  using assms by (simp add: storeBucket_def View_Put_def)

lemma PutItem_locked_put_fault:
  assumes "queueMode s \<noteq> 1" and "ID item \<noteq> []"
    and "\<And>b. \<exists>m c. Marshal d b = Inr m \<and> Compress d m = Inr c"
    and "BucketStorageView s = Some v" and "\<And>k. putFault v k = Some e0"
  shows "fst (PutItem_locked d s a item) =
           Some (Wrapf ''failed to persist packed storage entry: '' e0)"
proof -
  obtain s1 where up: "upsert s (Some a) (Some item) = (None, s1)"
    and s1: "queueMode s1 = queueMode s" "BucketStorageView s1 = BucketStorageView s"
    using assms(2) by (auto simp: upsert_def Let_def)
  from assms(3) [of "objects s1 a"] obtain m c
    where "Marshal d (objects s1 a) = Inr m" "Compress d m = Inr c" by blast
  with assms(1,4,5) s1 have "storeBucket d s1 a =
      (Some (Wrapf ''failed to persist packed storage entry: '' e0), s1)"
    by (intro storeBucket_put_fault) simp_all
  with up show ?thesis by (simp add: PutItem_locked_def)
qed

lemma PutItem_put_fault:
  assumes mode: "queueMode s \<noteq> 1" and id: "ID item \<noteq> []"
    and fetched: "\<And>e. fetch d s (ID item) \<noteq> Failed e"
    and codec: "\<And>b. \<exists>m c. Marshal d b = Inr m \<and> Compress d m = Inr c"
    and view: "BucketStorageView s = Some v" and fault: "\<And>k. putFault v k = Some e0"
  shows "fst (PutItem d s (Some item)) =
           Some (Wrapf ''failed to persist packed storage entry: '' e0)"
    and "BucketStorageView (snd (PutItem d s (Some item))) = BucketStorageView s"
    and "fst (GetItem d (snd (PutItem d s (Some item))) (ID item)) = Inr (Some item)"
proof -
  show err: "fst (PutItem d s (Some item)) =
           Some (Wrapf ''failed to persist packed storage entry: '' e0)"
  proof (cases "fetch d s (ID item)")
    case (Failed e)
    with fetched [of e] show ?thesis by simp
  next
    case (Absent bucketKey)
    let ?s1 = "grown s (GetCacheKey bucketKey) (Bucket bucketKey None None)"
    from mode view have "queueMode ?s1 \<noteq> 1" "BucketStorageView ?s1 = Some v"
      by (simp_all add: grown_fields)
    from PutItem_locked_put_fault [OF this(1) id codec this(2) fault, of "nextObject s"]
      id Absent show ?thesis
      by (simp add: PutItem_fetch grown_def)
  next
    case (Present b s1)
    from mode view fetch_view [OF Present]
    have "queueMode s1 \<noteq> 1" "BucketStorageView s1 = Some v" by simp_all
    from PutItem_locked_put_fault [OF this(1) id codec this(2) fault, of b] id Present
    show ?thesis by (simp add: PutItem_fetch)
  qed
  then show "BucketStorageView (snd (PutItem d s (Some item))) = BucketStorageView s"
    by (rule PutItem_error_view)
  from id fetched have "cached_item d (snd (PutItem d s (Some item))) item"
    by (rule PutItem_cached_item)
  with id show "fst (GetItem d (snd (PutItem d s (Some item))) (ID item)) = Inr (Some item)"
    by (simp add: cached_item_GetItem)
qed

text \<open>
  C3, at a failing input. \<^verbatim>\<open>PutItem\<close> enters the bucket into the cache and upserts the
  item into it before it calls the backend, and undoes neither when the put fails. At the
  packer \<open>brokenPacker\<close>, whose backend fails every put, the call returns the error; the
  cache, which had no entry \<open>05\<close>, has one afterwards; the backend has no entry \<open>05\<close>;
  and \<^verbatim>\<open>GetItem\<close>, which found no item before the call, returns the item after it.
\<close>

theorem PutItem_failed_put_changes_index:
  "fst (PutItem demoDeps brokenPacker (Some alice)) =
     Some (Wrapf ''failed to persist packed storage entry: '' (Errorf ''i/o timeout''))
   \<and> bucketsCache brokenPacker ''05'' = None
   \<and> bucketsCache (snd (PutItem demoDeps brokenPacker (Some alice))) ''05'' = Some 0
   \<and> bucketsCache (snd (PutItem demoDeps brokenPacker (Some alice))) \<noteq> bucketsCache brokenPacker
   \<and> fst (GetItem demoDeps brokenPacker ''alice'') = Inr None
   \<and> BucketStorageView (snd (PutItem demoDeps brokenPacker (Some alice))) =
       BucketStorageView brokenPacker
   \<and> View_Get (BucketStorageView (snd (PutItem demoDeps brokenPacker (Some alice)))) ''05'' =
       Inr None
   \<and> fst (GetItem demoDeps (snd (PutItem demoDeps brokenPacker (Some alice))) ''alice'') =
       Inr (Some alice)"
proof -
  let ?s = "brokenPacker\<lparr>bucketsCache := [''05'' \<mapsto> 0],
                   objects := (objects brokenPacker)
                     (0 := Bucket ''05'' (Some [''alice'' \<mapsto> Some (''t'', [7])]) None),
                   nextObject := 1\<rparr>"
  have "bucketsCache (brokenPacker\<lparr>bucketsCache := [''05'' \<mapsto> 0]\<rparr>) ''05'' \<noteq> bucketsCache brokenPacker ''05''"
    by (simp add: brokenPacker_fields)
  then have "bucketsCache (brokenPacker\<lparr>bucketsCache := [''05'' \<mapsto> 0]\<rparr>) \<noteq> bucketsCache brokenPacker"
    by metis
  moreover have "fst (GetItem demoDeps brokenPacker ''alice'') = Inr None"
    by (simp add: GetItem_def route_alice brokenPacker_fields GetCacheKey_def LongestPrefix_empty
        View_Get_def demoView_fields)
  moreover have "fst (GetItem demoDeps ?s ''alice'') = Inr (Some alice)"
    using GetItem_alice_05 [of ?s]
    by (simp add: GetItem_locked_def len_is_0_def index_map_def alice_def)
  moreover have "View_Get (BucketStorageView brokenPacker) ''05'' = Inr None"
    by (simp add: brokenPacker_fields View_Get_def demoView_fields)
  ultimately show ?thesis
    by (simp add: PutItem_broken brokenPacker_fields)
qed

subsection \<open>Deleting an item that is not there\<close>

lemma DeleteItem_locked_absent:
  "GetItem_locked s a i = None \<Longrightarrow> DeleteItem_locked d s a i = (None, s)"
  by (simp add: GetItem_locked_def DeleteItem_locked_def split: if_splits option.splits)

lemma DeleteItem_locked_twice:
  assumes "fst (DeleteItem_locked d s a i) = None"
  shows "DeleteItem_locked d (snd (DeleteItem_locked d s a i)) a i = (None, snd (DeleteItem_locked d s a i))"
proof (cases "GetItem_locked s a i")
  case None
  then show ?thesis by (simp add: DeleteItem_locked_absent)
next
  case (Some item)
  let ?b = "objects s a"
  let ?s1 = "s\<lparr>objects := (objects s)(a := Bucket (Key ?b) (delete_map (ItemMap ?b) i) (Buckets ?b))\<rparr>"
  from Some have run: "DeleteItem_locked d s a i = storeBucket d ?s1 a"
    by (auto simp: GetItem_locked_def DeleteItem_locked_def Let_def split: if_splits option.splits)
  have "index_map (ItemMap (objects (snd (storeBucket d ?s1 a)) a)) i = None"
    by (simp add: storeBucket_keeps index_map_def delete_map_def split: option.splits)
  then have "GetItem_locked (snd (storeBucket d ?s1 a)) a i = None"
    by (simp add: GetItem_locked_def)
  then show ?thesis
    unfolding run by (rule DeleteItem_locked_absent)
qed

text \<open>
  C8. When \<^verbatim>\<open>GetItem\<close> finds no item under an identifier, because its bucket is not in
  the backend, has no items or does not hold the identifier, \<^verbatim>\<open>DeleteItem\<close> of the
  identifier returns nil and leaves the backend and the queue of pending writes as they
  were. In terms of the bucket: when the bucket that the operation fetches has no items or
  does not hold the identifier, \<^verbatim>\<open>DeleteItem\<close> returns nil and the packer is the one
  that has fetched the bucket, with the backend and the queue as before. After a
  \<^verbatim>\<open>DeleteItem\<close> that returned nil, a second \<^verbatim>\<open>DeleteItem\<close> of the same identifier returns
  nil and changes nothing at all.
\<close>

theorem DeleteItem_absent_idempotent:
  "(fst (GetItem d s itemID) = Inr None \<longrightarrow>
      fst (DeleteItem d s itemID) = None
      \<and> BucketStorageView (snd (DeleteItem d s itemID)) = BucketStorageView s
      \<and> queuedBuckets (snd (DeleteItem d s itemID)) = queuedBuckets s)
   \<and> (itemID \<noteq> [] \<and> fetch d s itemID = Present a s1
        \<and> (len_is_0 (ItemMap (objects s1 a)) \<or> index_map (ItemMap (objects s1 a)) itemID = None)
      \<longrightarrow> DeleteItem d s itemID = (None, s1)
        \<and> BucketStorageView s1 = BucketStorageView s \<and> queuedBuckets s1 = queuedBuckets s)
   \<and> (fst (DeleteItem d s itemID) = None \<longrightarrow>
      DeleteItem d (snd (DeleteItem d s itemID)) itemID = (None, snd (DeleteItem d s itemID)))"
proof -
  have direct: "DeleteItem d s itemID = (None, s1)
        \<and> BucketStorageView s1 = BucketStorageView s \<and> queuedBuckets s1 = queuedBuckets s"
    if "itemID \<noteq> []" and f: "fetch d s itemID = Present a s1"
      and "len_is_0 (ItemMap (objects s1 a)) \<or> index_map (ItemMap (objects s1 a)) itemID = None"
  proof -
    from that(3) have "GetItem_locked s1 a itemID = None"
      by (auto simp: GetItem_locked_def)
    with that(1) f fetch_view [OF f] show ?thesis
      by (simp add: DeleteItem_fetch DeleteItem_locked_absent)
  qed
  have "(fst (GetItem d s itemID) = Inr None \<longrightarrow>
      fst (DeleteItem d s itemID) = None
      \<and> BucketStorageView (snd (DeleteItem d s itemID)) = BucketStorageView s
      \<and> queuedBuckets (snd (DeleteItem d s itemID)) = queuedBuckets s)
   \<and> (fst (DeleteItem d s itemID) = None \<longrightarrow>
      DeleteItem d (snd (DeleteItem d s itemID)) itemID = (None, snd (DeleteItem d s itemID)))"
  proof (cases "itemID = []")
  case True
  then show ?thesis by (simp add: GetItem_def DeleteItem_def)
next
  case False
  show ?thesis
  proof (cases "fetch d s itemID")
    case (Failed e)
    with False show ?thesis by (simp add: GetItem_fetch DeleteItem_fetch)
  next
    case (Absent bucketKey)
    with False show ?thesis by (simp add: GetItem_fetch DeleteItem_fetch)
  next
    case (Present a s1)
    have first: "fst (DeleteItem_locked d s1 a itemID) = None
        \<and> BucketStorageView (snd (DeleteItem_locked d s1 a itemID)) = BucketStorageView s
        \<and> queuedBuckets (snd (DeleteItem_locked d s1 a itemID)) = queuedBuckets s"
      if "GetItem_locked s1 a itemID = None"
      using that fetch_view [OF Present] by (simp add: DeleteItem_locked_absent)
    have second: "DeleteItem d (snd (DeleteItem_locked d s1 a itemID)) itemID =
        (None, snd (DeleteItem_locked d s1 a itemID))"
      if ok: "fst (DeleteItem_locked d s1 a itemID) = None"
    proof -
      let ?s2 = "snd (DeleteItem_locked d s1 a itemID)"
      have "located d ?s2 itemID a = located d s1 itemID a"
        by (rule located_cong) (simp_all add: DeleteItem_locked_keeps)
      with fetch_Present(1) [OF Present] have "located d ?s2 itemID a" by simp
      then have "fetch d ?s2 itemID = Present a ?s2" by (rule located_fetch)
      with False DeleteItem_locked_twice [OF ok] show ?thesis
        by (simp add: DeleteItem_fetch)
    qed
    from False Present first second show ?thesis
      by (simp add: GetItem_fetch DeleteItem_fetch)
  qed
qed
  moreover have "itemID \<noteq> [] \<and> fetch d s itemID = Present a s1
        \<and> (len_is_0 (ItemMap (objects s1 a)) \<or> index_map (ItemMap (objects s1 a)) itemID = None)
      \<longrightarrow> DeleteItem d s itemID = (None, s1)
        \<and> BucketStorageView s1 = BucketStorageView s \<and> queuedBuckets s1 = queuedBuckets s"
    by (intro impI direct) simp_all
  ultimately show ?thesis
    by (intro conjI) (erule conjunct1, assumption, erule conjunct2)
qed

lemma demo_hexVal_carol:
  "EncodeToString (Blake2b256Hash demoDeps ''carol'') =
     ''0505050505050505050505050505050505050505050505050505050505050505''"
  by code_simp

lemma located_afterAlice:
  "EncodeToString (Blake2b256Hash demoDeps i) =
     ''0505050505050505050505050505050505050505050505050505050505050505''
   \<Longrightarrow> located demoDeps afterAlice i 0"
proof -
  assume h: "EncodeToString (Blake2b256Hash demoDeps i) =
     ''0505050505050505050505050505050505050505050505050505050505050505''"
  have "LongestPrefix (bucketsCache afterAlice) (EncodeToString (Blake2b256Hash demoDeps i)) = Some (''05'', 0)"
    unfolding h afterAlice_fields by (rule LongestPrefix_insert_first) (simp_all add: LongestPrefix_empty)
  moreover have "LongestPrefix (bucketsCache afterAlice) (GetCacheKey (Key (objects afterAlice 0))) = Some (''05'', 0)"
    by (simp add: afterAlice_fields GetCacheKey_def LongestPrefix_self)
  ultimately show ?thesis
    unfolding located_def by blast
qed

theorem DeleteItem_absent_idempotent_witness:
  "fst (GetItem demoDeps afterAlice ''carol'') = Inr None
   \<and> fst (DeleteItem demoDeps afterAlice ''carol'') = None
   \<and> BucketStorageView (snd (DeleteItem demoDeps afterAlice ''carol'')) = BucketStorageView afterAlice
   \<and> fst (DeleteItem demoDeps afterAlice ''alice'') = None
   \<and> DeleteItem demoDeps (snd (DeleteItem demoDeps afterAlice ''alice'')) ''alice'' =
       (None, snd (DeleteItem demoDeps afterAlice ''alice''))"
proof -
  have "fetch demoDeps afterAlice ''carol'' = Present 0 afterAlice"
    by (rule located_fetch, rule located_afterAlice, rule demo_hexVal_carol)
  then have h1: "fst (GetItem demoDeps afterAlice ''carol'') = Inr None"
    by (simp add: GetItem_fetch GetItem_locked_def afterAlice_fields len_is_0_def index_map_def)
  have "fetch demoDeps afterAlice ''alice'' = Present 0 afterAlice"
    by (rule located_fetch, rule located_afterAlice, rule demo_hexVal)
  then have h2: "fst (DeleteItem demoDeps afterAlice ''alice'') = None"
    by (simp add: DeleteItem_fetch DeleteItem_locked_def afterAlice_fields len_is_0_def
        index_map_def storeBucket_def demoDeps_fields View_Put_def demoView_fields)
  from DeleteItem_absent_idempotent [of demoDeps afterAlice "''carol''" 0 afterAlice]
    DeleteItem_absent_idempotent [of demoDeps afterAlice "''alice''" 0 afterAlice] h1 h2
  show ?thesis by simp
qed

subsection \<open>Flushing the queue\<close>

lemma FlushQueue_Range_append:
  "FlushQueue_Range d q (err, s) =
     (err @ fst (FlushQueue_Range d q ([], s)), snd (FlushQueue_Range d q ([], s)))"
proof (induction q arbitrary: err s)
  case Nil
  then show ?case by simp
next
  case (Cons kv q)
  obtain key val where kv: "kv = (key, val)" by (cases kv)
  obtain lErr s1 where st: "storeBucket d s val = (lErr, s1)" by (cases "storeBucket d s val")
  let ?s = "s1\<lparr>queuedBuckets := AList.delete key (queuedBuckets s1)\<rparr>"
  show ?case
    unfolding kv
    using Cons.IH [of "case lErr of None \<Rightarrow> err | Some e \<Rightarrow> err @ [e]" ?s]
      Cons.IH [of "case lErr of None \<Rightarrow> [] | Some e \<Rightarrow> [e]" ?s]
    by (cases lErr) (simp_all add: st)
qed

lemma storeBucket_unfold:
  "storeBucket d s bucket =
     (if queueMode s = 1
      then (None, s\<lparr>queuedBuckets := AList.update (Key (objects s bucket)) bucket (queuedBuckets s)\<rparr>)
      else
        case Marshal d (objects s bucket) of
          Inl err \<Rightarrow> (Some (Wrapf ''failed to marshal bucket: '' err), s)
        | Inr marshaledBucket \<Rightarrow>
            (case Compress d marshaledBucket of
               Inl err \<Rightarrow> (Some (Wrapf ''failed to compress packed bucket: '' err), s)
             | Inr compressedBucket \<Rightarrow>
                 (map_option (Wrapf ''failed to persist packed storage entry: '')
                    (fst (View_Put (BucketStorageView s)
                            (StorageEntry (Key (objects s bucket)) compressedBucket))),
                  s\<lparr>BucketStorageView :=
                      snd (View_Put (BucketStorageView s)
                             (StorageEntry (Key (objects s bucket)) compressedBucket))\<rparr>)))"
  by (simp add: storeBucket_def split: sum.splits prod.splits option.splits)

lemma same_faults_refl: "same_faults s s"
  by (simp add: same_faults_def)

lemma storeBucket_same_faults:
  assumes "same_faults s0 s"
  shows "fst (storeBucket d s a) = fst (storeBucket d s0 a)"
    and "same_faults s0 (snd (storeBucket d s a)\<lparr>queuedBuckets := q\<rparr>)"
proof -
  from assms have o: "objects s = objects s0" and m: "queueMode s = queueMode s0"
    by (simp_all add: same_faults_def)
  from assms have v: "(BucketStorageView s = None \<and> BucketStorageView s0 = None)
     \<or> (\<exists>v v0. BucketStorageView s = Some v \<and> BucketStorageView s0 = Some v0
          \<and> viewPrefix v = viewPrefix v0 \<and> maxEntrySize v = maxEntrySize v0 \<and> putFault v = putFault v0)"
    by (cases "BucketStorageView s"; cases "BucketStorageView s0") (auto simp: same_faults_def)
  from v have put: "fst (View_Put (BucketStorageView s) e) = fst (View_Put (BucketStorageView s0) e)" for e
    by (auto simp: View_Put_def split: option.splits)
  from v have put2: "map_option (\<lambda>v. (viewPrefix v, maxEntrySize v, putFault v)) (snd (View_Put (BucketStorageView s) e))
      = map_option (\<lambda>v. (viewPrefix v, maxEntrySize v, putFault v)) (BucketStorageView s0)" for e
    by (auto simp: View_Put_def split: option.splits)
  show "fst (storeBucket d s a) = fst (storeBucket d s0 a)"
    by (simp add: storeBucket_unfold o m put split: sum.splits)
  show "same_faults s0 (snd (storeBucket d s a)\<lparr>queuedBuckets := q\<rparr>)"
    using assms by (simp add: storeBucket_unfold same_faults_def put2 split: sum.splits)
qed

lemma FlushQueue_Range_errors:
  "same_faults s0 s \<Longrightarrow>
     fst (FlushQueue_Range d q ([], s)) = List.map_filter (\<lambda>(k, a). fst (storeBucket d s0 a)) q"
proof (induction q arbitrary: s)
  case Nil
  then show ?case by (simp add: map_filter_simps)
next
  case (Cons kv q)
  obtain key val where kv: "kv = (key, val)" by (cases kv)
  let ?s = "snd (storeBucket d s val)\<lparr>queuedBuckets := AList.delete key (queuedBuckets (snd (storeBucket d s val)))\<rparr>"
  from Cons.prems have sf: "same_faults s0 ?s"
    by (rule storeBucket_same_faults(2))
  have e: "fst (storeBucket d s val) = fst (storeBucket d s0 val)"
    using Cons.prems by (rule storeBucket_same_faults(1))
  have "FlushQueue_Range d (kv # q) ([], s) =
      FlushQueue_Range d q ((case fst (storeBucket d s val) of None \<Rightarrow> [] | Some e \<Rightarrow> [e]), ?s)"
    unfolding kv by (cases "storeBucket d s val"; cases "fst (storeBucket d s val)") simp_all
  also have "fst \<dots> = (case fst (storeBucket d s val) of None \<Rightarrow> [] | Some e \<Rightarrow> [e])
      @ fst (FlushQueue_Range d q ([], ?s))"
    by (subst FlushQueue_Range_append) simp
  finally show ?case
    using Cons.IH [OF sf] by (simp add: kv e map_filter_simps split: option.splits)
qed

lemma FlushQueue_Range_empties:
  assumes "queueMode s \<noteq> 1 \<or> (\<forall>(k, a)\<in>set q. Key (objects s a) = k)"
    and "fst ` set (queuedBuckets s) \<subseteq> fst ` set q"
  shows "queuedBuckets (snd (FlushQueue_Range d q (err, s))) = []"
  using assms
proof (induction q arbitrary: err s)
  case Nil
  then show ?case by simp
next
  case (Cons kv q)
  obtain key val where kv: "kv = (key, val)" by (cases kv)
  obtain lErr s1 where st: "storeBucket d s val = (lErr, s1)" by (cases "storeBucket d s val")
  let ?s = "s1\<lparr>queuedBuckets := AList.delete key (queuedBuckets s1)\<rparr>"
  from storeBucket_keeps [of d s val] st
  have keep: "objects s1 = objects s" "queueMode s1 = queueMode s" by simp_all
  have "fst ` set (queuedBuckets s1) \<subseteq> insert key (fst ` set (queuedBuckets s))"
  proof (cases "queueMode s = 1")
    case True
    with Cons.prems(1) kv have "Key (objects s val) = key" by simp
    with True st have "queuedBuckets s1 = AList.update key val (queuedBuckets s)"
      by (auto simp: storeBucket_def)
    then have "map fst (queuedBuckets s1) =
        (if key \<in> set (map fst (queuedBuckets s)) then map fst (queuedBuckets s)
         else map fst (queuedBuckets s) @ [key])"
      by (simp add: update_keys)
    then have "set (map fst (queuedBuckets s1)) \<subseteq> insert key (set (map fst (queuedBuckets s)))"
      by (auto split: if_splits)
    then show ?thesis by simp
  next
    case False
    with st have "queuedBuckets s1 = queuedBuckets s"
      by (auto simp: storeBucket_def split: sum.splits prod.splits option.splits)
    then show ?thesis by auto
  qed
  moreover from Cons.prems(2) kv have "fst ` set (queuedBuckets s) \<subseteq> insert key (fst ` set q)"
    by simp
  ultimately have "fst ` set (queuedBuckets s1) \<subseteq> insert key (fst ` set q)"
    by blast
  then have "fst ` set (queuedBuckets ?s) \<subseteq> fst ` set q"
    by (auto simp: AList.delete_eq)
  moreover from Cons.prems(1) keep
  have "queueMode ?s \<noteq> 1 \<or> (\<forall>(k, a)\<in>set q. Key (objects ?s a) = k)"
    by auto
  ultimately have "queuedBuckets (snd (FlushQueue_Range d q
      ((case lErr of None \<Rightarrow> err | Some e \<Rightarrow> err @ [e]), ?s))) = []"
    by (intro Cons.IH)
  with kv st show ?case by simp
qed

text \<open>
  C10. \<^verbatim>\<open>FlushQueue\<close> deletes every entry of the queue, whether the store of its bucket
  failed or not; the error it returns is nil when no store failed and otherwise the list
  of the errors of the stores that failed; a \<^verbatim>\<open>FlushQueue\<close> that follows finds the queue
  empty, returns nil and changes nothing, so no bucket is tried again. The queue mode is
  off, or the queue is as \<^verbatim>\<open>storeBucket\<close> fills it.
\<close>

theorem FlushQueue_drops_failed:
  assumes "queueMode s \<noteq> 1 \<or> queue_filed s"
  shows "queuedBuckets (snd (FlushQueue d s)) = []
    \<and> fst (FlushQueue d s) =
        ErrorOrNil (List.map_filter (\<lambda>(k, a). fst (storeBucket d s a)) (queuedBuckets s))
    \<and> FlushQueue d (snd (FlushQueue d s)) = (None, snd (FlushQueue d s))"
proof -
  from assms have "queueMode s \<noteq> 1 \<or> (\<forall>(k, a)\<in>set (queuedBuckets s). Key (objects s a) = k)"
    by (auto simp: queue_filed_def)
  then have q: "queuedBuckets (snd (FlushQueue_Range d (queuedBuckets s) ([], s))) = []"
    by (rule FlushQueue_Range_empties) simp
  then have 1: "queuedBuckets (snd (FlushQueue d s)) = []"
    by (auto simp: FlushQueue_def split: prod.splits)
  have 2: "fst (FlushQueue d s) =
      ErrorOrNil (List.map_filter (\<lambda>(k, a). fst (storeBucket d s a)) (queuedBuckets s))"
    using FlushQueue_Range_errors [OF same_faults_refl, of d "queuedBuckets s" s]
    by (auto simp: FlushQueue_def split: prod.splits)
  from 1 have 3: "FlushQueue d (snd (FlushQueue d s)) = (None, snd (FlushQueue d s))"
    by (simp add: FlushQueue_def ErrorOrNil_def)
  from 1 2 3 show ?thesis by simp
qed

lemma PutItem_queued:
  assumes "bucketsCache s = Map.empty" and "BaseBucketBits s = 8" and "queueMode s = 1"
    and "View_Get (BucketStorageView s) ''05'' = Inr None" and "queuedBuckets s = []"
    and "nextObject s = 0"
  shows "PutItem demoDeps s (Some alice) =
     (None,
      s\<lparr>objects := (objects s)(0 := Bucket ''05'' (Some [''alice'' \<mapsto> Some (''t'', [7])]) None),
        nextObject := 1,
        bucketsCache := [''05'' \<mapsto> 0],
        queuedBuckets := [(''05'', 0)]\<rparr>)"
  using assms
  by (simp add: PutItem_def alice_def route_alice GetCacheKey_def LongestPrefix_empty
      new_object_def PutItem_locked_def upsert_def storeBucket_def)


lemma queuedBroken_fields:
  "BucketStorageView queuedBroken =
     Some (demoView\<lparr>putFault := (\<lambda>_. Some (Errorf ''i/o timeout''))\<rparr>)"
  "queueMode queuedBroken = 0"
  "queuedBuckets queuedBroken = [(''05'', 0)]"
  "objects queuedBroken 0 = Bucket ''05'' (Some [''alice'' \<mapsto> Some (''t'', [7])]) None"
proof -
  have "PutItem demoDeps (SetQueueMode brokenPacker True) (Some alice) =
     (None,
      (SetQueueMode brokenPacker True)
       \<lparr>objects := (objects (SetQueueMode brokenPacker True))
                     (0 := Bucket ''05'' (Some [''alice'' \<mapsto> Some (''t'', [7])]) None),
        nextObject := 1,
        bucketsCache := [''05'' \<mapsto> 0],
        queuedBuckets := [(''05'', 0)]\<rparr>)"
    by (rule PutItem_queued)
      (simp_all add: SetQueueMode_def brokenPacker_fields View_Get_def demoView_fields)
  then show "BucketStorageView queuedBroken =
     Some (demoView\<lparr>putFault := (\<lambda>_. Some (Errorf ''i/o timeout''))\<rparr>)"
    "queueMode queuedBroken = 0"
    "queuedBuckets queuedBroken = [(''05'', 0)]"
    "objects queuedBroken 0 = Bucket ''05'' (Some [''alice'' \<mapsto> Some (''t'', [7])]) None"
    by (simp_all add: queuedBroken_def SetQueueMode_def brokenPacker_fields)
qed

theorem FlushQueue_drops_failed_witness:
  "queueMode queuedBroken \<noteq> 1
   \<and> queuedBuckets queuedBroken = [(''05'', 0)]
   \<and> fst (FlushQueue demoDeps queuedBroken) =
       Some [Wrapf ''failed to persist packed storage entry: '' (Errorf ''i/o timeout'')]
   \<and> queuedBuckets (snd (FlushQueue demoDeps queuedBroken)) = []
   \<and> FlushQueue demoDeps (snd (FlushQueue demoDeps queuedBroken)) =
       (None, snd (FlushQueue demoDeps queuedBroken))"
proof -
  have h: "queueMode queuedBroken \<noteq> 1 \<or> queue_filed queuedBroken"
    by (simp add: queuedBroken_fields)
  have "fst (storeBucket demoDeps queuedBroken 0) =
      Some (Wrapf ''failed to persist packed storage entry: '' (Errorf ''i/o timeout''))"
    by (simp add: storeBucket_def queuedBroken_fields demoDeps_fields View_Put_def demoView_fields)
  then have "ErrorOrNil (List.map_filter (\<lambda>(k, a). fst (storeBucket demoDeps queuedBroken a))
        (queuedBuckets queuedBroken)) =
      Some [Wrapf ''failed to persist packed storage entry: '' (Errorf ''i/o timeout'')]"
    by (simp add: queuedBroken_fields map_filter_simps ErrorOrNil_def)
  with FlushQueue_drops_failed [OF h] show ?thesis
    by (simp add: queuedBroken_fields)
qed

subsection \<open>Queue mode\<close>




















subsection \<open>Opening a packer\<close>

lemma freshConfig_fields:
  "BucketStorageView freshConfig = Some demoView"
  "ConfigStorageView freshConfig = Some demoView"
  "BaseBucketBits freshConfig = 16"
  "BucketShardBits freshConfig = 0"
  by (simp_all add: freshConfig_def)

lemma View_Get_demoView: "View_Get (Some demoView) k = Inr None"
  by (simp add: View_Get_def demoView_fields)

lemma smod_4_nonneg: "0 \<le> x \<Longrightarrow> x smod 4 = x mod (4::int)"
  by (simp add: signed_modulo_int_def sgn_if)

lemma NewStoragePackerV2_validates:
  assumes "NewStoragePackerV2 d config = Inr p"
  shows "4 \<le> BaseBucketBits p \<and> BaseBucketBits p mod 4 = 0
     \<and> 4 \<le> BucketShardBits p \<and> BucketShardBits p mod 4 = 0"
proof -
  from assms have "BaseBucketBits p smod 4 = 0 \<and> \<not> BaseBucketBits p < 4
      \<and> BucketShardBits p smod 4 = 0 \<and> \<not> BucketShardBits p < 4"
    by (auto simp: NewStoragePackerV2_def Let_def
        split: option.splits sum.splits if_splits prod.splits)
  then show ?thesis
    using smod_4_nonneg [of "BaseBucketBits p"] smod_4_nonneg [of "BucketShardBits p"]
    by simp
qed

lemma NewStoragePackerV2_keeps_config_store:
  "NewStoragePackerV2 d config = Inr p \<Longrightarrow> ConfigStorageView p = ConfigStorageView config"
  by (auto simp: NewStoragePackerV2_def Let_def split: option.splits sum.splits if_splits prod.splits)

text \<open>
  C6, at a failing input. \<^verbatim>\<open>NewStoragePackerV2\<close> is given 16 base bits and a
  configuration store that holds nothing. It validates the bits and returns a packer with
  16 base bits, but \<^verbatim>\<open>needPersist\<close> is never true, so nothing is written: the store still
  has no entry \<open>config\<close>, and a second call on the same store, given no base bits, takes
  the default of 8. The lemma before this one says so for every input: the configuration
  store of the packer is the one that was passed in.
\<close>

theorem NewStoragePackerV2_config_not_stored:
  "\<not> isl (NewStoragePackerV2 demoDeps freshConfig)
   \<and> BaseBucketBits (projr (NewStoragePackerV2 demoDeps freshConfig)) = 16
   \<and> ConfigStorageView (projr (NewStoragePackerV2 demoDeps freshConfig)) = Some demoView
   \<and> View_Get (ConfigStorageView (projr (NewStoragePackerV2 demoDeps freshConfig))) ''config''
       = Inr None
   \<and> \<not> isl (NewStoragePackerV2 demoDeps
         (freshConfig\<lparr>ConfigStorageView :=
                        ConfigStorageView (projr (NewStoragePackerV2 demoDeps freshConfig)),
                      BaseBucketBits := 0\<rparr>))
   \<and> BaseBucketBits (projr (NewStoragePackerV2 demoDeps
         (freshConfig\<lparr>ConfigStorageView :=
                        ConfigStorageView (projr (NewStoragePackerV2 demoDeps freshConfig)),
                      BaseBucketBits := 0\<rparr>))) = 8"
proof -
  have one: "NewStoragePackerV2 demoDeps freshConfig =
      Inr \<lparr>BucketStorageView = Some (SubView demoView ''v2/''),
           ConfigStorageView = Some demoView, BaseBucketBits = 16, BucketShardBits = 4,
           bucketsCache = Map.empty, queueMode = 0, queuedBuckets = [],
           objects = (\<lambda>_. Bucket [] None None), nextObject = 0\<rparr>"
    by (simp add: NewStoragePackerV2_def freshConfig_fields View_Get_demoView
        defaultBucketShardBits_def signed_modulo_int_def)
  have two: "NewStoragePackerV2 demoDeps
        (freshConfig\<lparr>ConfigStorageView := Some demoView, BaseBucketBits := 0\<rparr>) =
      Inr \<lparr>BucketStorageView = Some (SubView demoView ''v2/''),
           ConfigStorageView = Some demoView, BaseBucketBits = 8, BucketShardBits = 4,
           bucketsCache = Map.empty, queueMode = 0, queuedBuckets = [],
           objects = (\<lambda>_. Bucket [] None None), nextObject = 0\<rparr>"
    by (simp add: NewStoragePackerV2_def freshConfig_fields View_Get_demoView
        defaultBucketShardBits_def defaultBaseBucketBits_def signed_modulo_int_def)
  show ?thesis
    by (simp add: one two View_Get_demoView)
qed

subsection \<open>Sharding a bucket\<close>

text \<open>For every input, \<^verbatim>\<open>shardBucket\<close> moves no item and writes nothing to the backend.\<close>

lemma shardBucket_loop_keeps:
  "shardBucket_loop i n b = Inr b' \<Longrightarrow> Key b' = Key b \<and> ItemMap b' = ItemMap b"
proof (induction i n b rule: shardBucket_loop.induct)
  case (1 i n bucket)
  show ?case
  proof (cases "i < n")
    case False
    with "1.prems" show ?thesis
      by (subst (asm) shardBucket_loop.simps) (simp del: shardBucket_loop.simps)
  next
    case True
    show ?thesis
    proof (cases "Buckets bucket")
      case None
      with True "1.prems" show ?thesis
        by (subst (asm) shardBucket_loop.simps) (simp del: shardBucket_loop.simps)
    next
      case (Some m)
      let ?next = "Bucket (Key bucket) (ItemMap bucket)
          (Some (m(Sprintf_x (nat i) \<mapsto> Bucket [] None None)))"
      from True Some "1.prems" have "shardBucket_loop (i + 1) n ?next = Inr b'"
        by (subst (asm) shardBucket_loop.simps) (simp del: shardBucket_loop.simps)
      from "1.IH" [OF True Some this] show ?thesis by simp
    qed
  qed
qed

lemma shardBucket_routes_nothing:
  "ItemMap (objects (snd (shardBucket d s a)) a') = ItemMap (objects s a')
   \<and> Key (objects (snd (shardBucket d s a)) a') = Key (objects s a')
   \<and> BucketStorageView (snd (shardBucket d s a)) = BucketStorageView s
   \<and> bucketsCache (snd (shardBucket d s a)) = bucketsCache s"
  by (auto simp: shardBucket_def dest: shardBucket_loop_keeps split: sum.splits
      simp del: shardBucket_loop.simps)

text \<open>
  \<^verbatim>\<open>PutBucket\<close> enters the bucket into the cache only after the store succeeded: when it
  returns an error the cache is as it was.
\<close>

lemma PutBucket_error_keeps_cache:
  "fst (PutBucket d s bucket) = Some err \<Longrightarrow>
     bucketsCache (snd (PutBucket d s bucket)) = bucketsCache s"
proof (cases bucket)
  case None
  then show ?thesis by (simp add: PutBucket_def)
next
  case (Some b)
  assume e: "fst (PutBucket d s bucket) = Some err"
  obtain r s1 where st: "storeBucket d s b = (r, s1)" by (cases "storeBucket d s b")
  from storeBucket_keeps(2) [of d s b] st have c1: "bucketsCache s1 = bucketsCache s" by simp
  obtain r2 s2 where sh: "shardBucket d s1 b = (r2, s2)" by (cases "shardBucket d s1 b")
  from shardBucket_routes_nothing [of d s1 b 0] sh have c2: "bucketsCache s2 = bucketsCache s1"
    by simp
  from e Some st sh c1 c2 show ?thesis
    by (auto simp: PutBucket_def split: if_splits option.splits)
qed

text \<open>
  C1, at a failing input. The shard bits are 4 and the bucket \<open>05\<close> holds the item
  \<open>alice\<close>. \<^verbatim>\<open>shardBucket\<close> gives the bucket six sub-buckets, named \<open>0\<close> to \<open>5\<close>, since
  \<^verbatim>\<open>2^4\<close> is 6 in Go, not sixteen; each is an empty bucket with an empty key, not the key
  \<open>05\<close> extended by its name; and the item stays in the bucket, in no sub-bucket. When
  the map of sub-buckets is nil, as in every bucket that \<^verbatim>\<open>PutItem\<close> creates, the first
  assignment panics.
\<close>

theorem shardBucket_six_empty_children:
  "fst (shardBucket demoDeps shardDemo 0) = None
   \<and> Buckets (objects (snd (shardBucket demoDeps shardDemo 0)) 0) =
       Some [''0'' \<mapsto> Bucket [] None None, ''1'' \<mapsto> Bucket [] None None,
             ''2'' \<mapsto> Bucket [] None None, ''3'' \<mapsto> Bucket [] None None,
             ''4'' \<mapsto> Bucket [] None None, ''5'' \<mapsto> Bucket [] None None]
   \<and> ItemMap (objects (snd (shardBucket demoDeps shardDemo 0)) 0) =
       Some [''alice'' \<mapsto> Some (''t'', [7])]
   \<and> fst (shardBucket demoDeps
            (shardDemo\<lparr>objects := (objects shardDemo)
               (0 := Bucket ''05'' (Some [''alice'' \<mapsto> Some (''t'', [7])]) None)\<rparr>) 0) =
       Some (Panic ''assignment to entry in nil map'')"
  by (simp add: shardBucket_def shardDemo_def demoPacker_def hextable_def)

subsection \<open>A value that is too large for the backend\<close>

lemma PutItem_tiny:
  "PutItem demoDeps tinyPacker (Some alice) =
     (Some (Wrapf ''failed to persist packed storage entry: '' (Errorf ErrValueTooLarge)),
      tinyPacker\<lparr>bucketsCache := [''05'' \<mapsto> 0],
                 objects := (objects tinyPacker)
                   (0 := Bucket ''05'' (Some [''alice'' \<mapsto> Some (''t'', [7])]) None),
                 nextObject := 1\<rparr>)"
  by (simp add: PutItem_def alice_def route_alice GetCacheKey_def LongestPrefix_empty
      View_Get_def tinyPacker_fields demoView_fields new_object_def PutItem_locked_def upsert_def
      storeBucket_def demoDeps_fields View_Put_def)

lemma Contains_too_large:
  "Contains (Error (Wrapf ''failed to persist packed storage entry: '' (Errorf ErrValueTooLarge)))
     ErrValueTooLarge"
  by (simp add: ErrValueTooLarge_def)

lemma DeleteItem_tiny:
  "fst (DeleteItem demoDeps (snd (PutItem demoDeps tinyPacker (Some alice))) ''alice'') =
     Some (Wrapf ''failed to persist packed storage entry: '' (Errorf ErrValueTooLarge))"
proof -
  let ?s = "snd (PutItem demoDeps tinyPacker (Some alice))"
  have hit: "LongestPrefix (bucketsCache ?s) (EncodeToString (Blake2b256Hash demoDeps ''alice''))
      = Some (''05'', 0)"
    unfolding demo_hexVal by (simp add: PutItem_tiny LongestPrefix_insert_first LongestPrefix_empty)
  moreover have "LongestPrefix (bucketsCache ?s) (GetCacheKey (Key (objects ?s 0))) = Some (''05'', 0)"
    by (simp add: PutItem_tiny GetCacheKey_def LongestPrefix_self)
  ultimately have "located demoDeps ?s ''alice'' 0"
    unfolding located_def by blast
  then have "fetch demoDeps ?s ''alice'' = Present 0 ?s"
    by (rule located_fetch)
  then have "DeleteItem demoDeps ?s ''alice'' = DeleteItem_locked demoDeps ?s 0 ''alice''"
    by (simp add: DeleteItem_fetch)
  then show ?thesis
    by (simp add: DeleteItem_locked_def PutItem_tiny len_is_0_def index_map_def delete_map_def
        storeBucket_def tinyPacker_fields demoDeps_fields View_Put_def demoView_fields)
qed

lemma tinyShard_fields:
  "BucketStorageView tinyShard = Some (demoView\<lparr>maxEntrySize := 0\<rparr>)"
  "BucketShardBits tinyShard = 4"
  "queueMode tinyShard = 0"
  "objects tinyShard 0 = Bucket ''05'' (Some [''alice'' \<mapsto> Some (''t'', [7])]) (Some Map.empty)"
  by (simp_all add: tinyShard_def shardDemo_def demoPacker_def)

lemma PutBucket_tiny:
  "fst (PutBucket demoDeps tinyShard (Some 0)) = None
   \<and> Buckets (objects (snd (PutBucket demoDeps tinyShard (Some 0))) 0) =
       Some [''0'' \<mapsto> Bucket [] None None, ''1'' \<mapsto> Bucket [] None None,
             ''2'' \<mapsto> Bucket [] None None, ''3'' \<mapsto> Bucket [] None None,
             ''4'' \<mapsto> Bucket [] None None, ''5'' \<mapsto> Bucket [] None None]"
proof -
  have st: "storeBucket demoDeps tinyShard 0 =
      (Some (Wrapf ''failed to persist packed storage entry: '' (Errorf ErrValueTooLarge)), tinyShard)"
    by (simp add: storeBucket_unfold tinyShard_fields demoDeps_fields View_Put_def demoView_fields)
  have sh: "shardBucket demoDeps tinyShard 0 =
      (None, tinyShard\<lparr>objects := (objects tinyShard)
         (0 := Bucket ''05'' (Some [''alice'' \<mapsto> Some (''t'', [7])])
            (Some [''0'' \<mapsto> Bucket [] None None, ''1'' \<mapsto> Bucket [] None None,
             ''2'' \<mapsto> Bucket [] None None, ''3'' \<mapsto> Bucket [] None None,
             ''4'' \<mapsto> Bucket [] None None, ''5'' \<mapsto> Bucket [] None None]))\<rparr>)"
    by (simp add: shardBucket_def tinyShard_fields hextable_def)
  show ?thesis
    using Contains_too_large
    by (simp add: PutBucket_def tinyShard_fields st sh)
qed

text \<open>
  C2, at a failing input. The backend of \<open>tinyPacker\<close> refuses every value as too
  large. \<^verbatim>\<open>PutItem\<close> returns the error of the backend, wrapped, and the bucket has no
  sub-buckets afterwards; \<^verbatim>\<open>DeleteItem\<close> of the item returns the same error. The message
  of the error contains \<^verbatim>\<open>physical.ErrValueTooLarge\<close>, which is what \<^verbatim>\<open>PutBucket\<close> looks
  for: on the same error from \<^verbatim>\<open>storeBucket\<close> it calls \<^verbatim>\<open>shardBucket\<close> and returns nil.
\<close>

theorem PutItem_returns_too_large:
  "fst (PutItem demoDeps tinyPacker (Some alice)) =
     Some (Wrapf ''failed to persist packed storage entry: '' (Errorf ErrValueTooLarge))
   \<and> Buckets (objects (snd (PutItem demoDeps tinyPacker (Some alice))) 0) = None
   \<and> fst (DeleteItem demoDeps (snd (PutItem demoDeps tinyPacker (Some alice))) ''alice'') =
       Some (Wrapf ''failed to persist packed storage entry: '' (Errorf ErrValueTooLarge))
   \<and> Contains (Error (Wrapf ''failed to persist packed storage entry: '' (Errorf ErrValueTooLarge)))
       ErrValueTooLarge
   \<and> fst (storeBucket demoDeps tinyShard 0) =
       Some (Wrapf ''failed to persist packed storage entry: '' (Errorf ErrValueTooLarge))
   \<and> fst (PutBucket demoDeps tinyShard (Some 0)) = None
   \<and> Buckets (objects (snd (PutBucket demoDeps tinyShard (Some 0))) 0) =
       Some [''0'' \<mapsto> Bucket [] None None, ''1'' \<mapsto> Bucket [] None None,
             ''2'' \<mapsto> Bucket [] None None, ''3'' \<mapsto> Bucket [] None None,
             ''4'' \<mapsto> Bucket [] None None, ''5'' \<mapsto> Bucket [] None None]"
proof -
  have "fst (storeBucket demoDeps tinyShard 0) =
       Some (Wrapf ''failed to persist packed storage entry: '' (Errorf ErrValueTooLarge))"
    by (simp add: storeBucket_unfold tinyShard_fields demoDeps_fields View_Put_def demoView_fields)
  with DeleteItem_tiny Contains_too_large PutBucket_tiny show ?thesis
    by (simp add: PutItem_tiny)
qed

subsection \<open>What holds of every packer in use\<close>

lemma set_update_subset: "set (AList.update k v al) \<subseteq> insert (k, v) (set al)"
  by (induction al) auto

lemma set_delete_subset: "set (AList.delete k al) \<subseteq> set al"
  by (auto simp: AList.delete_eq)

text \<open>The invariant depends on the cache, the queue, the keys of the objects and the next address.\<close>

lemma packer_inv_cong:
  assumes "packer_inv s" and "bucketsCache s' = bucketsCache s"
    and "queuedBuckets s' = queuedBuckets s" and "nextObject s' = nextObject s"
    and "\<And>a. Key (objects s' a) = Key (objects s a)"
  shows "packer_inv s'"
  using assms by (simp add: packer_inv_def cache_fresh_def queue_fresh_def queue_filed_def)

lemma packer_inv_grown:
  assumes "packer_inv s" and "LongestPrefix (bucketsCache s) c = None"
  shows "packer_inv (grown s c b)"
proof -
  from assms have "cache_fresh (grown s c b)"
    using frame_grown [of s c "[]" b] by (simp add: packer_inv_def frame_fresh)
  moreover from assms(1) have "queue_fresh (grown s c b)"
    by (auto simp: packer_inv_def queue_fresh_def grown_fields)
  moreover from assms(1) have "queue_filed (grown s c b)"
    by (fastforce simp: packer_inv_def queue_fresh_def queue_filed_def grown_fields)
  ultimately show ?thesis by (simp add: packer_inv_def)
qed

lemma packer_inv_fetch:
  assumes "packer_inv s" and "fetch d s i = Present a s1"
  shows "packer_inv s1" and "a < nextObject s1"
proof -
  from fetch_Present(2) [OF assms(2)] assms(1) show inv: "packer_inv s1"
    by (auto intro: packer_inv_grown)
  from fetch_Present(1) [OF assms(2)] have "a \<in> ran (bucketsCache s1)"
    by (rule located_in_cache)
  with inv show "a < nextObject s1"
    by (auto simp: packer_inv_def cache_fresh_def)
qed

lemma packer_inv_storeBucket:
  assumes "packer_inv s" and "a < nextObject s"
  shows "packer_inv (snd (storeBucket d s a))"
proof (cases "queueMode s = 1")
  case False
  have q: "queuedBuckets (snd (storeBucket d s a)) = queuedBuckets s"
    using False by (simp add: storeBucket_unfold split: sum.splits)
  show ?thesis
    by (rule packer_inv_cong [OF assms(1)]) (simp_all add: storeBucket_keeps q)
next
  case True
  let ?q = "AList.update (Key (objects s a)) a (queuedBuckets s)"
  from True have s': "snd (storeBucket d s a) = s\<lparr>queuedBuckets := ?q\<rparr>"
    by (simp add: storeBucket_def)
  from assms(1) have "distinct (map fst ?q)"
    by (simp add: packer_inv_def queue_filed_def distinct_update)
  moreover from assms(1) set_update_subset [of "Key (objects s a)" a "queuedBuckets s"]
  have "\<forall>(k, a')\<in>set ?q. Key (objects s a') = k"
    by (auto simp: packer_inv_def queue_filed_def)
  moreover have "snd ` set ?q \<subseteq> {..<nextObject s}"
  proof -
    have "snd ` set ?q \<subseteq> insert a (snd ` set (queuedBuckets s))"
      using set_update_subset [of "Key (objects s a)" a "queuedBuckets s"] by force
    with assms show ?thesis
      by (auto simp: packer_inv_def queue_fresh_def)
  qed
  ultimately show ?thesis
    using assms(1) unfolding s' by (simp add: packer_inv_def cache_fresh_def queue_fresh_def queue_filed_def)
qed

lemma packer_inv_PutItem_locked:
  assumes "packer_inv s" and "a < nextObject s"
  shows "packer_inv (snd (PutItem_locked d s a item))"
proof (cases "ID item = []")
  case True
  with assms(1) show ?thesis by (simp add: PutItem_locked_def upsert_def)
next
  case False
  let ?b = "objects s a"
  let ?s1 = "s\<lparr>objects := (objects s)(a := Bucket (Key ?b)
      (Some ((case ItemMap ?b of None \<Rightarrow> Map.empty | Some f \<Rightarrow> f)(ID item \<mapsto> Message item))) (Buckets ?b))\<rparr>"
  from assms(1) have "packer_inv ?s1"
    by (rule packer_inv_cong) simp_all
  moreover from assms(2) have "a < nextObject ?s1" by simp
  ultimately have "packer_inv (snd (storeBucket d ?s1 a))"
    by (rule packer_inv_storeBucket)
  with False show ?thesis
    by (simp add: PutItem_locked_def upsert_def Let_def)
qed

lemma packer_inv_DeleteItem_locked:
  assumes "packer_inv s" and "a < nextObject s"
  shows "packer_inv (snd (DeleteItem_locked d s a i))"
proof (cases "GetItem_locked s a i")
  case None
  with assms(1) show ?thesis by (simp add: DeleteItem_locked_absent)
next
  case (Some item)
  let ?b = "objects s a"
  let ?s1 = "s\<lparr>objects := (objects s)(a := Bucket (Key ?b) (delete_map (ItemMap ?b) i) (Buckets ?b))\<rparr>"
  from Some have run: "DeleteItem_locked d s a i = storeBucket d ?s1 a"
    by (auto simp: GetItem_locked_def DeleteItem_locked_def Let_def split: if_splits option.splits)
  from assms(1) have "packer_inv ?s1"
    by (rule packer_inv_cong) simp_all
  moreover from assms(2) have "a < nextObject ?s1" by simp
  ultimately show ?thesis
    unfolding run by (rule packer_inv_storeBucket)
qed

lemma packer_inv_FlushQueue_Range:
  assumes "packer_inv s" and "snd ` set q \<subseteq> {..<nextObject s}"
  shows "packer_inv (snd (FlushQueue_Range d q (err, s)))"
  using assms
proof (induction q arbitrary: err s)
  case Nil
  then show ?case by simp
next
  case (Cons kv q)
  obtain key val where kv: "kv = (key, val)" by (cases kv)
  obtain lErr s1 where st: "storeBucket d s val = (lErr, s1)" by (cases "storeBucket d s val")
  let ?s = "s1\<lparr>queuedBuckets := AList.delete key (queuedBuckets s1)\<rparr>"
  from Cons.prems kv have "val < nextObject s" by simp
  with Cons.prems(1) have "packer_inv (snd (storeBucket d s val))"
    by (rule packer_inv_storeBucket)
  with st have inv1: "packer_inv s1" by simp
  have "packer_inv ?s"
  proof -
    from inv1 have "distinct (map fst (AList.delete key (queuedBuckets s1)))"
      by (simp add: packer_inv_def queue_filed_def distinct_delete)
    with inv1 set_delete_subset [of key "queuedBuckets s1"] show ?thesis
      by (auto simp: packer_inv_def cache_fresh_def queue_fresh_def queue_filed_def)
  qed
  moreover from storeBucket_keeps(3) [of d s val] st Cons.prems(2)
  have "snd ` set q \<subseteq> {..<nextObject ?s}" by simp
  ultimately have "packer_inv (snd (FlushQueue_Range d q
      ((case lErr of None \<Rightarrow> err | Some e \<Rightarrow> err @ [e]), ?s)))"
    by (rule Cons.IH)
  with kv st show ?case by simp
qed

lemma packer_inv_step:
  assumes "packer_inv s"
  shows "packer_inv (step d s c)"
proof (cases c)
  case (CallPutItem item0)
  show ?thesis
  proof (cases "\<exists>item. item0 = Some item \<and> ID item \<noteq> []")
    case False
    with CallPutItem assms show ?thesis by (auto simp: PutItem_def split: option.splits)
  next
    case True
    then obtain item where item: "item0 = Some item" "ID item \<noteq> []" by blast
    show ?thesis
    proof (cases "fetch d s (ID item)")
      case (Failed e)
      with CallPutItem item assms show ?thesis by (simp add: PutItem_fetch)
    next
      case (Absent bucketKey)
      let ?s1 = "grown s (GetCacheKey bucketKey) (Bucket bucketKey None None)"
      from assms fetch_Absent(1) [OF Absent] have "packer_inv ?s1"
        by (rule packer_inv_grown)
      moreover have "nextObject s < nextObject ?s1" by (simp add: grown_fields)
      ultimately have "packer_inv (snd (PutItem_locked d ?s1 (nextObject s) item))"
        by (rule packer_inv_PutItem_locked)
      with CallPutItem item Absent show ?thesis by (simp add: PutItem_fetch grown_def)
    next
      case (Present a s1)
      from packer_inv_fetch [OF assms Present]
      have "packer_inv (snd (PutItem_locked d s1 a item))"
        by (rule packer_inv_PutItem_locked)
      with CallPutItem item Present show ?thesis by (simp add: PutItem_fetch)
    qed
  qed
next
  case (CallDeleteItem i)
  show ?thesis
  proof (cases "i = []")
    case True
    with CallDeleteItem assms show ?thesis by (simp add: DeleteItem_def)
  next
    case False
    show ?thesis
    proof (cases "fetch d s i")
      case (Present a s1)
      from packer_inv_fetch [OF assms Present]
      have "packer_inv (snd (DeleteItem_locked d s1 a i))"
        by (rule packer_inv_DeleteItem_locked)
      with CallDeleteItem False Present show ?thesis by (simp add: DeleteItem_fetch)
    qed (use CallDeleteItem False assms in \<open>simp_all add: DeleteItem_fetch\<close>)
  qed
next
  case (CallGetItem i)
  show ?thesis
  proof (cases "i = []")
    case True
    with CallGetItem assms show ?thesis by (simp add: GetItem_def)
  next
    case False
    show ?thesis
    proof (cases "fetch d s i")
      case (Present a s1)
      with CallGetItem False packer_inv_fetch(1) [OF assms Present] show ?thesis
        by (simp add: GetItem_fetch)
    qed (use CallGetItem False assms in \<open>simp_all add: GetItem_fetch\<close>)
  qed
next
  case (CallSetQueueMode enabled)
  from assms have "packer_inv (SetQueueMode s enabled)"
    by (rule packer_inv_cong) (simp_all add: SetQueueMode_def)
  with CallSetQueueMode show ?thesis by simp
next
  case CallFlushQueue
  from assms have "snd ` set (queuedBuckets s) \<subseteq> {..<nextObject s}"
    by (simp add: packer_inv_def queue_fresh_def)
  with assms have "packer_inv (snd (FlushQueue_Range d (queuedBuckets s) ([], s)))"
    by (rule packer_inv_FlushQueue_Range)
  with CallFlushQueue show ?thesis
    by (auto simp: FlushQueue_def split: prod.splits)
qed

lemma packer_inv_NewStoragePackerV2: "NewStoragePackerV2 d config = Inr p \<Longrightarrow> packer_inv p"
  by (auto simp: NewStoragePackerV2_def Let_def packer_inv_def cache_fresh_def queue_fresh_def
      queue_filed_def split: option.splits sum.splits if_splits prod.splits)

lemma packer_inv_calls:
  "NewStoragePackerV2 d config = Inr p \<Longrightarrow> packer_inv (foldl (step d) p calls)"
proof -
  have "packer_inv s \<Longrightarrow> packer_inv (foldl (step d) s calls)" for s
    by (induction calls arbitrary: s) (simp_all add: packer_inv_step)
  then show "NewStoragePackerV2 d config = Inr p \<Longrightarrow> packer_inv (foldl (step d) p calls)"
    by (simp add: packer_inv_NewStoragePackerV2)
qed

end
